theory Spec2Isabelle
  imports Main "HOL-Library.AList" "HOL-Library.Multiset"
begin

section \<open>The Jenkins operator of prow (prow/jenkins/controller.go)\<close>

text \<open>
  The controller reconciles ProwJob records of an external store with the builds of a
  Jenkins service. Its collaborators (store, Jenkins client, GitHub client, configuration)
  are Go interfaces; the model takes their answers from an environment record and writes
  every call that changes an external system into a list of calls.
\<close>

subsection \<open>Data model\<close>

text \<open>
  Modelled from the spec: the types of package kube (ProwJob, its spec and status, the
  job types and states) are declared outside the files at hand. The spec lists the fields
  and the six states; \<open>CompletionTime = None\<close> stands for Go's zero \<open>time.Time\<close>.
\<close>

datatype ProwJobType = PresubmitJob | PostsubmitJob | PeriodicJob | BatchJob

datatype ProwJobState =
  TriggeredState | PendingState | SuccessState | FailureState | AbortedState | ErrorState

record Pull =
  Number :: int
  SHA :: string

record Refs =
  Org :: string
  Repo :: string
  Pulls :: "Pull list"

datatype ProwJobSpec = ProwJobSpec
  (Type: ProwJobType)
  (Agent: string)
  (Job: string)
  (SpecRefs: Refs)
  (MaxConcurrency: int)
  (RunAfterSuccess: "ProwJobSpec list")

record ProwJobStatus =
  StartTime :: nat
  CompletionTime :: "nat option"
  State :: ProwJobState
  Description :: string
  URL :: string
  PodName :: string
  BuildID :: string

record ProwJob =
  Name :: string
  Labels :: "(string \<times> string) list"
  Spec :: ProwJobSpec
  Status :: ProwJobStatus

definition JenkinsAgent :: string where
  "JenkinsAgent = ''jenkins''"

text \<open>
  Modelled from the spec: \<open>ProwJob.Complete\<close> of package kube; a record is complete once
  its completion time is set.
\<close>

definition Complete :: "ProwJob \<Rightarrow> bool" where
  "Complete pj = (CompletionTime (Status pj) \<noteq> None)"


text \<open>
  Modelled from the spec: a JenkinsBuild is opaque to the controller except for its five
  predicates and its number; the predicates are independent fields here, so that no
  relation between them is assumed.
\<close>

record JenkinsBuild =
  BuildNumber :: int
  IsEnqueued :: bool
  IsRunning :: bool
  IsSuccess :: bool
  IsFailure :: bool
  IsAborted :: bool

record Presubmit =
  RunIfChanged :: string

definition testInfra :: string where
  "testInfra = ''https://github.com/kubernetes/test-infra/issues''"

subsection \<open>Environment: the collaborators' answers and the configuration\<close>

record env =
  ListProwJobs :: "string + ProwJob list"
  ListBuilds :: "string list \<Rightarrow> string + (string \<rightharpoonup> JenkinsBuild)"
  ReplaceProwJob :: "string \<Rightarrow> ProwJob \<Rightarrow> string + ProwJob"
  CreateProwJob :: "ProwJob \<Rightarrow> string + ProwJob"
  Build :: "ProwJob \<Rightarrow> string option"
  Abort :: "string \<Rightarrow> JenkinsBuild \<Rightarrow> string option"
  GetPullRequestChanges :: "string \<Rightarrow> string \<Rightarrow> int \<Rightarrow> string + string list"
  Report :: "ProwJob \<Rightarrow> string option"
  Now :: nat
  NewProwJob :: "ProwJobSpec \<Rightarrow> (string \<times> string) list \<Rightarrow> ProwJob"
  cfgMaxConcurrency :: int
  cfgMaxGoroutines :: int
  cfgAllowCancellations :: bool
  cfgJobURLTemplate :: "ProwJob \<Rightarrow> string + string"
  cfgGetPresubmit :: "string \<Rightarrow> string \<Rightarrow> Presubmit option"
  RunsAgainstChanges :: "Presubmit \<Rightarrow> string list \<Rightarrow> bool"
  Schedule :: "ProwJob list \<Rightarrow> ProwJob list"

text \<open>The calls that write to the store or to Jenkins, in the order they are made.\<close>

datatype call =
  CallReplace string ProwJob
  | CallCreate ProwJob
  | CallBuild ProwJob
  | CallAbort string JenkinsBuild

datatype panic = IndexOutOfRange | NegativeWaitGroupCounter

subsection \<open>pendingJobs and canExecuteConcurrently\<close>

text \<open>
  \<open>pendingJobs\<close> is a Go \<open>map[string]int\<close>: an association list with distinct keys, a
  missing key reading as 0. Go's \<open>int\<close> has 64 bits where the operator runs; a count is
  an integer and every addition on counts wraps around at \<open>2 ^ 63\<close>, as \<open>wrap64\<close> says.
\<close>

type_synonym pendingJobs = "(string \<times> int) list"

definition wrap64 :: "int \<Rightarrow> int" where
  "wrap64 x = (x + 2 ^ 63) mod 2 ^ 64 - 2 ^ 63"

definition numPendingOf :: "pendingJobs \<Rightarrow> string \<Rightarrow> int" where
  "numPendingOf m job = (case map_of m job of None \<Rightarrow> 0 | Some n \<Rightarrow> n)"

text \<open>The loop \<open>for _, num := range c.pendingJobs { running += num }\<close>.\<close>

definition running_total :: "pendingJobs \<Rightarrow> int" where
  "running_total m = foldl (\<lambda>running num. wrap64 (running + num)) 0 (map snd m)"

text \<open>The statement \<open>c.pendingJobs[job]++\<close>.\<close>

definition incrementNumPendingJobs :: "pendingJobs \<Rightarrow> string \<Rightarrow> pendingJobs" where
  "incrementNumPendingJobs m job = AList.update job (wrap64 (numPendingOf m job + 1)) m"

definition canExecuteConcurrently :: "env \<Rightarrow> pendingJobs \<Rightarrow> ProwJob \<Rightarrow> bool \<times> pendingJobs" where
  "canExecuteConcurrently E m pj =
     (if cfgMaxConcurrency E > 0 \<and> running_total m \<ge> cfgMaxConcurrency E then (False, m)
      else if MaxConcurrency (Spec pj) = 0 then (True, incrementNumPendingJobs m (Job (Spec pj)))
      else if numPendingOf m (Job (Spec pj)) \<ge> MaxConcurrency (Spec pj) then (False, m)
      else (True, incrementNumPendingJobs m (Job (Spec pj))))"

subsection \<open>Decimal formatting (\<open>%d\<close>, \<open>strconv.Itoa\<close>)\<close>

definition digit_char :: "nat \<Rightarrow> char" where
  "digit_char d = char_of (48 + d)"

fun show_nat :: "nat \<Rightarrow> string" where
  "show_nat n = (if n < 10 then [digit_char n] else show_nat (n div 10) @ [digit_char (n mod 10)])"

declare show_nat.simps [simp del]

definition Itoa :: "int \<Rightarrow> string" where
  "Itoa i = (if i < 0 then CHR ''-'' # show_nat (nat (- i)) else show_nat (nat i))"

subsection \<open>getJenkinsJobs\<close>

text \<open>
  The jobs of the records that are not complete, each once. The source collects them in a
  Go map, whose iteration order is not fixed; the model lists them in order of first
  appearance.
\<close>

definition getJenkinsJobs :: "ProwJob list \<Rightarrow> string list" where
  "getJenkinsJobs pjs = remdups (map (\<lambda>pj. Job (Spec pj)) (filter (\<lambda>pj. \<not> Complete pj) pjs))"

subsection \<open>terminateDupes\<close>

text \<open>The key of the \<open>dupes\<close> map, \<open>Sprintf("%s %s/%s#%d", job, org, repo, number)\<close>.\<close>

definition dupeKey :: "ProwJob \<Rightarrow> Pull \<Rightarrow> string" where
  "dupeKey pj p =
     Job (Spec pj) @ '' '' @ Org (SpecRefs (Spec pj)) @ ''/'' @ Repo (SpecRefs (Spec pj))
       @ ''#'' @ Itoa (Number p)"

definition setAborted :: "nat \<Rightarrow> ProwJob \<Rightarrow> ProwJob" where
  "setAborted now pj = pj\<lparr>Status := (Status pj)\<lparr>CompletionTime := Some now, State := AbortedState\<rparr>\<rparr>"

record dupes_state =
  dupes :: "string \<rightharpoonup> nat"
  slice :: "ProwJob list"
  calls :: "call list"

text \<open>
  One iteration of the loop over the slice, at index \<open>i\<close>: \<open>Inl\<close> is the panic of reading
  \<open>Pulls[0]\<close> of an empty list; otherwise the new state and, when the store's Replace
  failed, the error the function returns with.
\<close>

definition dupes_iter ::
  "env \<Rightarrow> (string \<rightharpoonup> JenkinsBuild) \<Rightarrow> nat \<Rightarrow> dupes_state \<Rightarrow> panic + dupes_state \<times> string option" where
  "dupes_iter E jbs i s =
     (let pj = slice s ! i in
      if Complete pj \<or> Type (Spec pj) \<noteq> PresubmitJob then Inr (s, None)
      else case Pulls (SpecRefs (Spec pj)) of
        [] \<Rightarrow> Inl IndexOutOfRange
      | p # _ \<Rightarrow>
          (let n = dupeKey pj p in
           case dupes s n of
             None \<Rightarrow> Inr (s\<lparr>dupes := (dupes s)(n \<mapsto> i)\<rparr>, None)
           | Some prev \<Rightarrow>
               (let newer = StartTime (Status (slice s ! prev)) < StartTime (Status pj);
                    cancelIndex = (if newer then prev else i);
                    s1 = (if newer then s\<lparr>dupes := (dupes s)(n \<mapsto> i)\<rparr> else s);
                    toCancel = slice s ! cancelIndex;
                    build = jbs (Name toCancel)
                in if cfgAllowCancellations E \<and> (case build of None \<Rightarrow> False | Some b \<Rightarrow> IsEnqueued b)
                   then Inr (s1, None)
                   else
                     (let aborts = (if cfgAllowCancellations E
                                    then (case build of None \<Rightarrow> []
                                          | Some b \<Rightarrow> [CallAbort (Job (Spec toCancel)) b])
                                    else []);
                          toCancel' = setAborted (Now E) toCancel;
                          cs = calls s1 @ aborts @ [CallReplace (Name toCancel) toCancel']
                      in case ReplaceProwJob E (Name toCancel) toCancel' of
                           Inl err \<Rightarrow> Inr (s1\<lparr>calls := cs\<rparr>, Some err)
                         | Inr npj \<Rightarrow>
                             Inr (s1\<lparr>slice := (slice s1)[cancelIndex := npj], calls := cs\<rparr>, None)))))"

fun dupes_loop ::
  "env \<Rightarrow> (string \<rightharpoonup> JenkinsBuild) \<Rightarrow> nat list \<Rightarrow> dupes_state \<Rightarrow> panic + dupes_state \<times> string option" where
  "dupes_loop E jbs [] s = Inr (s, None)"
| "dupes_loop E jbs (i # is) s =
     (case dupes_iter E jbs i s of
        Inl p \<Rightarrow> Inl p
      | Inr (s', Some err) \<Rightarrow> Inr (s', Some err)
      | Inr (s', None) \<Rightarrow> dupes_loop E jbs is s')"

definition terminateDupes ::
  "env \<Rightarrow> ProwJob list \<Rightarrow> (string \<rightharpoonup> JenkinsBuild) \<Rightarrow> panic + dupes_state \<times> string option" where
  "terminateDupes E pjs jbs =
     dupes_loop E jbs [0..<length pjs] \<lparr>dupes = Map.empty, slice = pjs, calls = []\<rparr>"


subsection \<open>RunAfterSuccessCanRun\<close>

text \<open>
  \<open>GetPullRequestChanges\<close> answers with the changed file names; the regular expression of
  \<open>run_if_changed\<close> is applied by \<open>RunsAgainstChanges\<close>, a method of package config that
  the environment supplies.
\<close>

definition RunAfterSuccessCanRun :: "env \<Rightarrow> ProwJob \<Rightarrow> ProwJob \<Rightarrow> panic + bool" where
  "RunAfterSuccessCanRun E parent child =
     (if Type (Spec parent) \<noteq> PresubmitJob then Inr True
      else case Pulls (SpecRefs (Spec parent)) of
        [] \<Rightarrow> Inl IndexOutOfRange
      | p # _ \<Rightarrow>
          (let org = Org (SpecRefs (Spec parent));
               repo = Repo (SpecRefs (Spec parent));
               prNum = Number p
           in case cfgGetPresubmit E (org @ ''/'' @ repo) (Job (Spec child)) of
                None \<Rightarrow> Inr True
              | Some ps \<Rightarrow>
                  if RunIfChanged ps = [] then Inr True
                  else (case GetPullRequestChanges E org repo prNum of
                          Inl err \<Rightarrow> Inr True
                        | Inr changes \<Rightarrow> Inr (RunsAgainstChanges E ps changes))))"

subsection \<open>The two drivers\<close>

text \<open>
  What the workers share: the \<open>pendingJobs\<close> counter, the calls made so far, and the
  contents of the report and error channels.
\<close>

record sync_state =
  pend :: pendingJobs
  writes :: "call list"
  reports :: "ProwJob list"
  syncErrors :: "string list"

text \<open>The common tail of both drivers: \<open>reports <- pj\<close>, then \<open>ReplaceProwJob\<close>.\<close>

definition reportAndReplace :: "env \<Rightarrow> ProwJob \<Rightarrow> sync_state \<Rightarrow> sync_state \<times> string option" where
  "reportAndReplace E pj st =
     (st\<lparr>reports := reports st @ [pj], writes := writes st @ [CallReplace (Name pj) pj]\<rparr>,
      case ReplaceProwJob E (Name pj) pj of Inl err \<Rightarrow> Some err | Inr npj \<Rightarrow> None)"

text \<open>The status URL: pod name, build id, then the template executed on the record.\<close>

definition resolveURL ::
  "env \<Rightarrow> JenkinsBuild \<Rightarrow> ProwJob \<Rightarrow> sync_state \<Rightarrow> sync_state \<times> string option" where
  "resolveURL E jb pj st =
     (let pj1 = pj\<lparr>Status := (Status pj)\<lparr>PodName := Job (Spec pj) @ ''-'' @ Itoa (BuildNumber jb),
                                               BuildID := Itoa (BuildNumber jb)\<rparr>\<rparr>
      in case cfgJobURLTemplate E pj1 of
           Inl err \<Rightarrow> (st, Some (''error executing URL template: '' @ err))
         | Inr url \<Rightarrow> reportAndReplace E (pj1\<lparr>Status := (Status pj1)\<lparr>URL := url\<rparr>\<rparr>) st)"

text \<open>The loop over \<open>pj.Spec.RunAfterSuccess\<close> of the success case.\<close>

fun startChildren ::
  "env \<Rightarrow> ProwJob \<Rightarrow> ProwJobSpec list \<Rightarrow> call list \<Rightarrow> panic + call list \<times> string option" where
  "startChildren E pj [] cs = Inr (cs, None)"
| "startChildren E pj (nj # njs) cs =
     (case RunAfterSuccessCanRun E pj (NewProwJob E nj (Labels pj)) of
        Inl p \<Rightarrow> Inl p
      | Inr False \<Rightarrow> startChildren E pj njs cs
      | Inr True \<Rightarrow>
          (case CreateProwJob E (NewProwJob E nj (Labels pj)) of
             Inl err \<Rightarrow>
               Inr (cs @ [CallCreate (NewProwJob E nj (Labels pj))],
                    Some (''error starting next prowjob: '' @ err))
           | Inr created \<Rightarrow>
               startChildren E pj njs (cs @ [CallCreate (NewProwJob E nj (Labels pj))])))"

definition setCompleted :: "nat \<Rightarrow> ProwJobState \<Rightarrow> string \<Rightarrow> ProwJob \<Rightarrow> ProwJob" where
  "setCompleted now s d pj =
     pj\<lparr>Status := (Status pj)\<lparr>CompletionTime := Some now, State := s, Description := d\<rparr>\<rparr>"

definition setError :: "nat \<Rightarrow> string \<Rightarrow> ProwJob \<Rightarrow> ProwJob" where
  "setError now d pj =
     pj\<lparr>Status := (Status pj)\<lparr>CompletionTime := Some now, State := ErrorState,
                               URL := testInfra, Description := d\<rparr>\<rparr>"

definition countPending :: "ProwJob \<Rightarrow> sync_state \<Rightarrow> sync_state" where
  "countPending pj st = st\<lparr>pend := incrementNumPendingJobs (pend st) (Job (Spec pj))\<rparr>"

definition syncPendingJob ::
  "env \<Rightarrow> (string \<rightharpoonup> JenkinsBuild) \<Rightarrow> ProwJob \<Rightarrow> sync_state \<Rightarrow> panic + sync_state \<times> string option" where
  "syncPendingJob E jbs pj st =
     (case jbs (Name pj) of
        None \<Rightarrow> Inr (reportAndReplace E (setError (Now E) ''Error finding Jenkins job.'' pj) st)
      | Some jb \<Rightarrow>
          if IsEnqueued jb then Inr (countPending pj st, None)
          else if IsRunning jb then
            (if Description (Status pj) = ''Jenkins job running.''
             then Inr (countPending pj st, None)
             else Inr (resolveURL E jb
                         (pj\<lparr>Status := (Status pj)\<lparr>Description := ''Jenkins job running.''\<rparr>\<rparr>)
                         (countPending pj st)))
          else if IsSuccess jb then
            (let pj1 = setCompleted (Now E) SuccessState ''Jenkins job succeeded.'' pj
             in case startChildren E pj1 (RunAfterSuccess (Spec pj1)) (writes st) of
                  Inl p \<Rightarrow> Inl p
                | Inr (cs, Some err) \<Rightarrow> Inr (st\<lparr>writes := cs\<rparr>, Some err)
                | Inr (cs, None) \<Rightarrow> Inr (resolveURL E jb pj1 (st\<lparr>writes := cs\<rparr>)))
          else if IsFailure jb then
            Inr (resolveURL E jb (setCompleted (Now E) FailureState ''Jenkins job failed.'' pj) st)
          else if IsAborted jb then
            Inr (resolveURL E jb (setCompleted (Now E) AbortedState ''Jenkins job aborted.'' pj) st)
          else Inr (resolveURL E jb pj st))"

definition setPending :: "ProwJob \<Rightarrow> ProwJob" where
  "setPending pj =
     pj\<lparr>Status := (Status pj)\<lparr>State := PendingState, Description := ''Jenkins job enqueued.''\<rparr>\<rparr>"

definition syncNonPendingJob ::
  "env \<Rightarrow> (string \<rightharpoonup> JenkinsBuild) \<Rightarrow> ProwJob \<Rightarrow> sync_state \<Rightarrow> panic + sync_state \<times> string option" where
  "syncNonPendingJob E jbs pj st =
     (if Complete pj then Inr (st, None)
      else case jbs (Name pj) of
        None \<Rightarrow>
          (case canExecuteConcurrently E (pend st) pj of
             (False, m) \<Rightarrow> Inr (st\<lparr>pend := m\<rparr>, None)
           | (True, m) \<Rightarrow>
               (let st1 = st\<lparr>pend := m, writes := writes st @ [CallBuild pj]\<rparr>
                in case Build E pj of
                     Some err \<Rightarrow>
                       Inr (reportAndReplace E (setError (Now E) ''Error starting Jenkins job.'' pj) st1)
                   | None \<Rightarrow> Inr (reportAndReplace E (setPending pj) st1)))
      | Some jb \<Rightarrow> Inr (reportAndReplace E (setPending pj) st))"

subsection \<open>The worker pool and Sync\<close>

text \<open>
  The pool starts \<open>maxSyncRoutines\<close> workers on one channel; no worker is started for 0,
  and \<open>WaitGroup.Add\<close> panics on a negative count. A driver touches the shared counter in
  one locked step at most (\<open>incrementNumPendingJobs\<close> or \<open>canExecuteConcurrently\<close>), and the
  collaborators answer by the call alone, so a run of the pool acts like the drivers run
  one after another in the order they reach the lock. The model runs them so, in the order
  \<open>Schedule\<close> of the environment gives for the channel's contents; a single worker takes
  them in channel order, and the properties of a tick ask of \<open>Schedule\<close> only that it
  rearranges the records.
\<close>

fun run_jobs ::
  "(ProwJob \<Rightarrow> sync_state \<Rightarrow> panic + sync_state \<times> string option) \<Rightarrow> ProwJob list \<Rightarrow> sync_state
     \<Rightarrow> panic + sync_state" where
  "run_jobs fn [] st = Inr st"
| "run_jobs fn (pj # jobs) st =
     (case fn pj st of
        Inl p \<Rightarrow> Inl p
      | Inr (st', None) \<Rightarrow> run_jobs fn jobs st'
      | Inr (st', Some err) \<Rightarrow> run_jobs fn jobs (st'\<lparr>syncErrors := syncErrors st' @ [err]\<rparr>))"

definition syncProwJobs ::
  "(ProwJob \<Rightarrow> sync_state \<Rightarrow> panic + sync_state \<times> string option) \<Rightarrow> int \<Rightarrow> ProwJob list
     \<Rightarrow> sync_state \<Rightarrow> panic + sync_state" where
  "syncProwJobs fn maxSyncRoutines jobs st =
     (if maxSyncRoutines < 0 then Inl NegativeWaitGroupCounter
      else if maxSyncRoutines = 0 then Inr st
      else run_jobs fn jobs st)"

text \<open>
  Modelled from the spec: \<open>pjutil.PartitionPending\<close> sends the records whose state is
  pending to one channel and all others to a second one, in slice order.
\<close>

definition PartitionPending :: "ProwJob list \<Rightarrow> ProwJob list \<times> ProwJob list" where
  "PartitionPending pjs =
     (filter (\<lambda>pj. State (Status pj) = PendingState) pjs,
      filter (\<lambda>pj. State (Status pj) \<noteq> PendingState) pjs)"

record Controller =
  pendingJobs :: pendingJobs
  pjs :: "ProwJob list"

datatype sync_error =
  ListProwJobsError string
  | ListBuildsError string
  | SyncErrors "string list" "string list"

record tick =
  ctrl :: Controller
  performed :: "call list"
  reported :: "ProwJob list"
  returned :: "sync_error option"

definition reportErrs :: "env \<Rightarrow> ProwJob list \<Rightarrow> string list" where
  "reportErrs E rs = List.map_filter (Report E) rs"

definition Sync :: "env \<Rightarrow> Controller \<Rightarrow> panic + tick" where
  "Sync E c =
     (case ListProwJobs E of
        Inl err \<Rightarrow>
          Inr \<lparr>ctrl = c, performed = [], reported = [], returned = Some (ListProwJobsError err)\<rparr>
      | Inr listed \<Rightarrow>
          (let jenkinsJobs = filter (\<lambda>pj. Agent (Spec pj) = JenkinsAgent) listed
           in case ListBuilds E (getJenkinsJobs jenkinsJobs) of
                Inl err \<Rightarrow>
                  Inr \<lparr>ctrl = c, performed = [], reported = [],
                       returned = Some (ListBuildsError err)\<rparr>
              | Inr jbs \<Rightarrow>
                  (case terminateDupes E jenkinsJobs jbs of
                     Inl p \<Rightarrow> Inl p
                   | Inr (ds, derr) \<Rightarrow>
                       (let st0 = \<lparr>pend = [], writes = calls ds, reports = [],
                                   syncErrors = (case derr of None \<Rightarrow> [] | Some err \<Rightarrow> [err])\<rparr>
                        in case syncProwJobs (syncPendingJob E jbs) (cfgMaxGoroutines E)
                                  (Schedule E (fst (PartitionPending (slice ds)))) st0 of
                             Inl p \<Rightarrow> Inl p
                           | Inr st1 \<Rightarrow>
                               (case syncProwJobs (syncNonPendingJob E jbs) (cfgMaxGoroutines E)
                                       (Schedule E (snd (PartitionPending (slice ds)))) st1 of
                                  Inl p \<Rightarrow> Inl p
                                | Inr st2 \<Rightarrow>
                                    Inr \<lparr>ctrl = \<lparr>pendingJobs = pend st2, pjs = slice ds\<rparr>,
                                         performed = writes st2,
                                         reported = reports st2,
                                         returned =
                                           (if syncErrors st2 = [] \<and> reportErrs E (reports st2) = []
                                            then None
                                            else Some (SyncErrors (syncErrors st2)
                                                         (reportErrs E (reports st2))))\<rparr>)))))"


subsection \<open>Stating the properties\<close>

text \<open>
  The records the deduper looks at, and the key it files them under (undefined for an
  empty pull list, where the source panics).
\<close>

definition dedupeCandidate :: "ProwJob \<Rightarrow> bool" where
  "dedupeCandidate pj = (\<not> Complete pj \<and> Type (Spec pj) = PresubmitJob)"

definition firstPullKey :: "ProwJob \<Rightarrow> string option" where
  "firstPullKey pj = (case Pulls (SpecRefs (Spec pj)) of [] \<Rightarrow> None | p # ps \<Rightarrow> Some (dupeKey pj p))"


fun isBuild :: "call \<Rightarrow> bool" where
  "isBuild (CallBuild pj) = True"
| "isBuild c = False"

text \<open>The name a call to the store's Replace addresses, and the names of a list of calls.\<close>

fun replacedName :: "call \<Rightarrow> string option" where
  "replacedName (CallReplace n pj) = Some n"
| "replacedName c = None"

text \<open>
  Modelled from the spec: the store adapter, \<open>replace(name, record)\<close> puts the record
  under the name and \<open>create(record)\<close> adds one. \<open>storeAfter\<close> is the listing that follows
  the calls of a tick; a call the store refused changes nothing.
\<close>

fun storeAfter :: "env \<Rightarrow> call list \<Rightarrow> ProwJob list \<Rightarrow> ProwJob list" where
  "storeAfter E [] store = store"
| "storeAfter E (CallReplace n pj # cs) store =
     (case ReplaceProwJob E n pj of
        Inl err \<Rightarrow> storeAfter E cs store
      | Inr npj \<Rightarrow> storeAfter E cs (map (\<lambda>q. if Name q = n then npj else q) store))"
| "storeAfter E (CallCreate pj # cs) store =
     (case CreateProwJob E pj of
        Inl err \<Rightarrow> storeAfter E cs store
      | Inr created \<Rightarrow> storeAfter E cs (store @ [created]))"
| "storeAfter E (c # cs) store = storeAfter E cs store"

text \<open>
  The invariant of the deduper's loop before index \<open>i\<close>, over the slice \<open>js\<close> it started
  from: the slice keeps its length, the entries from \<open>i\<close> on are still the listed ones,
  and an entry of \<open>dupes\<close> points below \<open>i\<close> to an unchanged candidate filed under its
  own key.
\<close>

definition dupes_inv :: "ProwJob list \<Rightarrow> nat \<Rightarrow> dupes_state \<Rightarrow> bool" where
  "dupes_inv js i s =
     (length (slice s) = length js
      \<and> (\<forall>j. i \<le> j \<and> j < length js \<longrightarrow> slice s ! j = js ! j)
      \<and> (\<forall>k v. dupes s k = Some v \<longrightarrow>
            v < i \<and> v < length js \<and> slice s ! v = js ! v \<and> dedupeCandidate (js ! v)
            \<and> firstPullKey (js ! v) = Some k))"

text \<open>The index the loop cancels when the key of record \<open>i\<close> is already filed under \<open>prev\<close>.\<close>

definition cancelIndexOf :: "ProwJob list \<Rightarrow> nat \<Rightarrow> nat \<Rightarrow> nat" where
  "cancelIndexOf sl prev i =
     (if StartTime (Status (sl ! prev)) < StartTime (Status (sl ! i)) then prev else i)"

text \<open>The calls to Jenkins' Abort that go with cancelling a record.\<close>

definition abortCalls :: "env \<Rightarrow> (string \<rightharpoonup> JenkinsBuild) \<Rightarrow> ProwJob \<Rightarrow> call list" where
  "abortCalls E jbs toCancel =
     (if cfgAllowCancellations E
      then (case jbs (Name toCancel) of None \<Rightarrow> [] | Some b \<Rightarrow> [CallAbort (Job (Spec toCancel)) b])
      else [])"

definition skipsEnqueued :: "env \<Rightarrow> (string \<rightharpoonup> JenkinsBuild) \<Rightarrow> ProwJob \<Rightarrow> bool" where
  "skipsEnqueued E jbs toCancel =
     (cfgAllowCancellations E \<and> (case jbs (Name toCancel) of None \<Rightarrow> False | Some b \<Rightarrow> IsEnqueued b))"

text \<open>
  What a call made by the deduper looks like, over the slice \<open>js\<close> it started from: a
  Replace of a candidate under its name with the aborted status, or, with cancellations
  allowed, an Abort of a candidate's build that is not enqueued.
\<close>

fun dedupeCallOk :: "env \<Rightarrow> (string \<rightharpoonup> JenkinsBuild) \<Rightarrow> ProwJob list \<Rightarrow> call \<Rightarrow> bool" where
  "dedupeCallOk E jbs js (CallReplace n q) =
     (\<exists>pj\<in>set js. dedupeCandidate pj \<and> n = Name pj \<and> q = setAborted (Now E) pj)"
| "dedupeCallOk E jbs js (CallAbort job b) =
     (cfgAllowCancellations E \<and> \<not> IsEnqueued b
      \<and> (\<exists>pj\<in>set js. dedupeCandidate pj \<and> jbs (Name pj) = Some b \<and> job = Job (Spec pj)))"
| "dedupeCallOk E jbs js c = False"

text \<open>
  An entry of the slice after the deduper: the listed record, or what the store answered
  to the Replace of that record, aborted.
\<close>

definition dedupedEntry :: "env \<Rightarrow> call list \<Rightarrow> ProwJob \<Rightarrow> ProwJob \<Rightarrow> bool" where
  "dedupedEntry E cs listed now =
     (now = listed
      \<or> (dedupeCandidate listed
          \<and> ReplaceProwJob E (Name listed) (setAborted (Now E) listed) = Inr now
          \<and> CallReplace (Name listed) (setAborted (Now E) listed) \<in> set cs))"

text \<open>The invariant of the deduper's loop that also describes its calls and the slice.\<close>

definition pass_inv :: "env \<Rightarrow> (string \<rightharpoonup> JenkinsBuild) \<Rightarrow> ProwJob list \<Rightarrow> nat \<Rightarrow> dupes_state \<Rightarrow> bool" where
  "pass_inv E jbs js j s =
     (dupes_inv js j s
      \<and> (\<forall>c\<in>set (calls s). dedupeCallOk E jbs js c)
      \<and> (\<forall>k<length js. dedupedEntry E (calls s) (js ! k) (slice s ! k)))"

text \<open>The record a call to the store's Replace carries, and the records of a list of calls.\<close>

fun replacedRecord :: "call \<Rightarrow> ProwJob option" where
  "replacedRecord (CallReplace n pj) = Some pj"
| "replacedRecord c = None"

definition replacedRecords :: "call list \<Rightarrow> ProwJob list" where
  "replacedRecords cs = List.map_filter replacedRecord cs"

text \<open>
  A call a driver may make for the record named \<open>name\<close>: a Replace of a record under that
  name, a creation of a child, or a build; never an Abort.
\<close>

fun driverCallOk :: "string \<Rightarrow> call \<Rightarrow> bool" where
  "driverCallOk name (CallReplace n q) = (n = name \<and> Name q = name)"
| "driverCallOk name (CallAbort job b) = False"
| "driverCallOk name c = True"

text \<open>
  What one run of a driver on the record \<open>pj\<close> does to the shared state: it appends calls
  \<open>ws\<close>, at most one of them a Replace, and appends to the report channel exactly the
  records it replaced; it never writes to the error channel itself.
\<close>

definition jobEffects :: "ProwJob \<Rightarrow> sync_state \<Rightarrow> sync_state \<Rightarrow> call list \<Rightarrow> bool" where
  "jobEffects pj st st' ws =
     (writes st' = writes st @ ws
      \<and> reports st' = reports st @ replacedRecords ws
      \<and> length (replacedRecords ws) \<le> 1
      \<and> list_all (driverCallOk (Name pj)) ws
      \<and> syncErrors st' = syncErrors st)"

text \<open>The pending records the pending driver counts: their build is enqueued or running.\<close>

definition countedPending :: "(string \<rightharpoonup> JenkinsBuild) \<Rightarrow> ProwJob \<Rightarrow> bool" where
  "countedPending jbs pj =
     (case jbs (Name pj) of None \<Rightarrow> False | Some jb \<Rightarrow> IsEnqueued jb \<or> IsRunning jb)"



subsection \<open>Example records and an example environment\<close>

definition exSpec :: "ProwJobType \<Rightarrow> string \<Rightarrow> int \<Rightarrow> Pull list \<Rightarrow> ProwJobSpec list \<Rightarrow> ProwJobSpec" where
  "exSpec t job maxc pulls after =
     ProwJobSpec t JenkinsAgent job \<lparr>Org = ''kubernetes'', Repo = ''test-infra'', Pulls = pulls\<rparr> maxc after"

definition exStatus :: "ProwJobState \<Rightarrow> nat \<Rightarrow> nat option \<Rightarrow> string \<Rightarrow> ProwJobStatus" where
  "exStatus st start completion descr =
     \<lparr>StartTime = start, CompletionTime = completion, State = st, Description = descr,
      URL = [], PodName = [], BuildID = []\<rparr>"

definition exPJ :: "string \<Rightarrow> ProwJobSpec \<Rightarrow> ProwJobStatus \<Rightarrow> ProwJob" where
  "exPJ name spec status = \<lparr>Name = name, Labels = [], Spec = spec, Status = status\<rparr>"

definition exBuild :: "int \<Rightarrow> bool \<Rightarrow> bool \<Rightarrow> bool \<Rightarrow> JenkinsBuild" where
  "exBuild n enq run succ =
     \<lparr>BuildNumber = n, IsEnqueued = enq, IsRunning = run, IsSuccess = succ,
      IsFailure = False, IsAborted = False\<rparr>"

text \<open>
  A store and a Jenkins that accept every call, a store that answers with the record it
  was given, one worker, no global cap, cancellations as given.
\<close>

definition exEnv :: "ProwJob list \<Rightarrow> (string \<times> JenkinsBuild) list \<Rightarrow> bool \<Rightarrow> env" where
  "exEnv listed builds cancel =
     \<lparr>ListProwJobs = Inr listed,
      ListBuilds = (\<lambda>jobs. Inr (map_of builds)),
      ReplaceProwJob = (\<lambda>n pj. Inr pj),
      CreateProwJob = (\<lambda>pj. Inr pj),
      Build = (\<lambda>pj. None),
      Abort = (\<lambda>job b. None),
      GetPullRequestChanges = (\<lambda>org repo n. Inr []),
      Report = (\<lambda>pj. None),
      Now = 100,
      NewProwJob = (\<lambda>spec labels. \<lparr>Name = ''child-of-'' @ Job spec, Labels = labels, Spec = spec,
                                     Status = exStatus TriggeredState 100 None []\<rparr>),
      cfgMaxConcurrency = 0,
      cfgMaxGoroutines = 1,
      cfgAllowCancellations = cancel,
      cfgJobURLTemplate = (\<lambda>pj. Inr (''https://jenkins.example/'' @ PodName (Status pj))),
      cfgGetPresubmit = (\<lambda>repo job. None),
      RunsAgainstChanges = (\<lambda>ps changes. True),
      Schedule = (\<lambda>jobs. jobs)\<rparr>"

text \<open>The same environment with a store that refuses to create records.\<close>

definition exEnvNoCreate :: env where
  "exEnvNoCreate = (exEnv [] [] False)\<lparr>CreateProwJob := (\<lambda>pj. Inl ''quota exceeded'')\<rparr>"

definition exController :: Controller where
  "exController = \<lparr>pendingJobs = [], pjs = []\<rparr>"

definition exState0 :: sync_state where
  "exState0 = \<lparr>pend = [], writes = [], reports = [], syncErrors = []\<rparr>"

text \<open>A presubmit record of job \<open>pull-x\<close> for pull 7, not complete, started at \<open>start\<close>.\<close>

definition exPresubmit :: "string \<Rightarrow> nat \<Rightarrow> ProwJobState \<Rightarrow> ProwJob" where
  "exPresubmit name start st =
     exPJ name (exSpec PresubmitJob ''pull-x'' 0 [\<lparr>Number = 7, SHA = ''abc''\<rparr>] [])
       (exStatus st start None [])"

text \<open>A record of job \<open>ci-x\<close> that succeeded and completed at time 50.\<close>

definition exComplete :: "string \<Rightarrow> ProwJob" where
  "exComplete name =
     exPJ name (exSpec PeriodicJob ''ci-x'' 0 [] [])
       (exStatus SuccessState 1 (Some 50) ''Jenkins job succeeded.'')"

section \<open>Properties\<close>

subsection \<open>The pendingJobs counter\<close>

lemma wrap64_id: "- (2 ^ 63) \<le> x \<Longrightarrow> x < 2 ^ 63 \<Longrightarrow> wrap64 x = x"
  by (simp add: wrap64_def)

lemma wrap64_add_left: "wrap64 (wrap64 a + b) = wrap64 (a + b)"
proof -
  have "wrap64 a + b + 2 ^ 63 = (a + 2 ^ 63) mod 2 ^ 64 + b"
    by (simp add: wrap64_def)
  then have "(wrap64 a + b + 2 ^ 63) mod 2 ^ 64 = ((a + 2 ^ 63) mod 2 ^ 64 + b) mod (2 ^ 64 :: int)"
    by (rule arg_cong)
  also have "\<dots> = ((a + 2 ^ 63) + b) mod 2 ^ 64"
    by (rule mod_add_left_eq)
  also have "(a + 2 ^ 63) + b = a + b + (2 ^ 63 :: int)"
    by (rule add.assoc [THEN trans]) (simp add: add.commute)
  finally have "(wrap64 a + b + 2 ^ 63) mod 2 ^ 64 = (a + b + 2 ^ 63) mod (2 ^ 64 :: int)" .
  then show ?thesis unfolding wrap64_def [of "wrap64 a + b"] wrap64_def [of "a + b"] by (rule arg_cong)
qed

lemma wrap64_add_right: "wrap64 (a + wrap64 b) = wrap64 (a + b)"
  using wrap64_add_left [of b a] by (simp add: add.commute)

lemma wrap64_idem: "wrap64 (wrap64 a) = wrap64 a"
  using wrap64_add_left [of a 0] by simp

lemma foldl_wrap64:
  "foldl (\<lambda>running num. wrap64 (running + num)) (wrap64 a) xs = wrap64 (a + sum_list xs)"
proof (induction xs arbitrary: a)
  case Nil
  then show ?case by simp
next
  case (Cons x xs)
  have "foldl (\<lambda>running num. wrap64 (running + num)) (wrap64 a) (x # xs)
          = foldl (\<lambda>running num. wrap64 (running + num)) (wrap64 (a + x)) xs"
    by (simp add: wrap64_add_left)
  then show ?case using Cons.IH [of "a + x"] by (simp add: add.assoc)
qed

lemma running_total_wrap: "running_total m = wrap64 (sum_list (map snd m))"
proof -
  have "wrap64 0 = 0" by (simp add: wrap64_def)
  then show ?thesis
    using foldl_wrap64 [of 0 "map snd m"] by (simp add: running_total_def)
qed

lemma wrap64_running_total: "wrap64 (running_total m) = running_total m"
  by (simp add: running_total_wrap wrap64_idem)




lemma sum_snd_update:
  "sum_list (map snd (AList.update k v m)) =
     sum_list (map snd m) - (case map_of m k of None \<Rightarrow> 0 | Some w \<Rightarrow> w) + (v::int)"
  by (induction m) auto

lemma running_total_increment:
  "running_total (incrementNumPendingJobs m job) = wrap64 (running_total m + 1)"
proof -
  let ?old = "numPendingOf m job"
  have "sum_list (map snd (incrementNumPendingJobs m job))
          = (sum_list (map snd m) - ?old) + wrap64 (?old + 1)"
    by (simp add: incrementNumPendingJobs_def sum_snd_update numPendingOf_def split: option.splits)
  then have "running_total (incrementNumPendingJobs m job)
          = wrap64 ((sum_list (map snd m) - ?old) + wrap64 (?old + 1))"
    by (simp add: running_total_wrap)
  also have "\<dots> = wrap64 ((sum_list (map snd m) - ?old) + (?old + 1))"
    by (rule wrap64_add_right)
  also have "\<dots> = wrap64 (sum_list (map snd m) + 1)" by simp
  also have "\<dots> = wrap64 (running_total m + 1)"
    by (simp add: running_total_wrap wrap64_add_left)
  finally show ?thesis .
qed


lemmas ex_defs =
  exEnv_def exPJ_def exSpec_def exStatus_def exBuild_def exEnvNoCreate_def exController_def exState0_def exPresubmit_def exComplete_def

subsection \<open>Concurrency admission\<close>




text \<open>
  The wrap-around itself: with counts \<open>2 ^ 63 - 1\<close> and 1 the computed sum is
  \<open>- (2 ^ 63)\<close>, below a global cap of 1, and the record is admitted.
\<close>

lemma canExecuteConcurrently_wraps:
  "running_total [(''ci-a'', 2 ^ 63 - 1), (''ci-b'', 1)] = - (2 ^ 63)
   \<and> fst (canExecuteConcurrently ((exEnv [] [] False)\<lparr>cfgMaxConcurrency := 1\<rparr>)
            [(''ci-a'', 2 ^ 63 - 1), (''ci-b'', 1)]
            (exPJ ''a'' (exSpec PeriodicJob ''ci-x'' 0 [] []) (exStatus TriggeredState 1 None [])))"
  by (simp add: ex_defs canExecuteConcurrently_def running_total_def wrap64_def)

subsection \<open>The pending driver\<close>

text \<open>
  C8: for a record with no build snapshot under its name, \<open>syncPendingJob\<close> sets
  completion time = now, state = error, URL = the test-infra issues page and the
  description "Error finding Jenkins job.", sends exactly that record to the report
  channel, calls the store's Replace with it, and returns Replace's error if any; the
  \<open>pendingJobs\<close> counter is untouched.
\<close>

theorem syncPendingJob_missing_build:
  assumes "jbs (Name pj) = None"
  shows "syncPendingJob E jbs pj st =
           Inr (st\<lparr>reports := reports st @
                      [pj\<lparr>Status := (Status pj)\<lparr>CompletionTime := Some (Now E), State := ErrorState,
                             URL := testInfra, Description := ''Error finding Jenkins job.''\<rparr>\<rparr>],
                    writes := writes st @
                      [CallReplace (Name pj)
                         (pj\<lparr>Status := (Status pj)\<lparr>CompletionTime := Some (Now E), State := ErrorState,
                             URL := testInfra, Description := ''Error finding Jenkins job.''\<rparr>\<rparr>)]\<rparr>,
                case ReplaceProwJob E (Name pj)
                       (pj\<lparr>Status := (Status pj)\<lparr>CompletionTime := Some (Now E), State := ErrorState,
                             URL := testInfra, Description := ''Error finding Jenkins job.''\<rparr>\<rparr>) of
                  Inl err \<Rightarrow> Some err | Inr npj \<Rightarrow> None)"
  using assms by (simp add: syncPendingJob_def reportAndReplace_def setError_def)



text \<open>
  C8, witness: a pending record of job \<open>ci-x\<close> and no builds at all; the record is
  reported and persisted once, in state error.
\<close>

theorem syncPendingJob_missing_build_witness:
  "Map.empty (Name (exPJ ''a'' (exSpec PeriodicJob ''ci-x'' 0 [] [])
                      (exStatus PendingState 1 None ''Jenkins job enqueued.''))) = (None :: JenkinsBuild option)
   \<and> syncPendingJob (exEnv [] [] False) Map.empty
        (exPJ ''a'' (exSpec PeriodicJob ''ci-x'' 0 [] []) (exStatus PendingState 1 None ''Jenkins job enqueued.''))
        exState0
      = Inr (\<lparr>pend = [],
              writes = [CallReplace ''a''
                 (exPJ ''a'' (exSpec PeriodicJob ''ci-x'' 0 [] [])
                    ((exStatus ErrorState 1 (Some 100) ''Error finding Jenkins job.'')\<lparr>URL := testInfra\<rparr>))],
              reports = [exPJ ''a'' (exSpec PeriodicJob ''ci-x'' 0 [] [])
                    ((exStatus ErrorState 1 (Some 100) ''Error finding Jenkins job.'')\<lparr>URL := testInfra\<rparr>)],
              syncErrors = []\<rparr>, None)"
  using syncPendingJob_missing_build [of Map.empty
          "exPJ ''a'' (exSpec PeriodicJob ''ci-x'' 0 [] []) (exStatus PendingState 1 None ''Jenkins job enqueued.'')"
          "exEnv [] [] False" exState0]
  by (simp add: ex_defs)

lemma RunAfterSuccessCanRun_Status:
  "RunAfterSuccessCanRun E (pj\<lparr>Status := s\<rparr>) child = RunAfterSuccessCanRun E pj child"
  by (simp add: RunAfterSuccessCanRun_def split: list.splits)

lemma RunAfterSuccessCanRun_panic_parent:
  "RunAfterSuccessCanRun E pj c1 = Inl p \<Longrightarrow> RunAfterSuccessCanRun E pj c2 = Inl p"
  by (auto simp: RunAfterSuccessCanRun_def Let_def split: if_splits list.splits option.splits sum.splits)

lemma RunAfterSuccessCanRun_cases:
  assumes "RunAfterSuccessCanRun E pj c1 = Inr b"
  shows "\<exists>b'. RunAfterSuccessCanRun E pj c2 = Inr b'"
proof (cases "RunAfterSuccessCanRun E pj c2")
  case (Inl p)
  from RunAfterSuccessCanRun_panic_parent [OF this, of c1] show ?thesis
    using assms by simp
next
  case (Inr b')
  then show ?thesis by blast
qed

lemma startChildren_first_failure:
  assumes "\<forall>c\<in>set before. RunAfterSuccessCanRun E pj (NewProwJob E c (Labels pj)) = Inr True \<longrightarrow>
              (\<exists>r. CreateProwJob E (NewProwJob E c (Labels pj)) = Inr r)"
    and "RunAfterSuccessCanRun E pj (NewProwJob E nj (Labels pj)) = Inr True"
    and "CreateProwJob E (NewProwJob E nj (Labels pj)) = Inl err"
  shows "startChildren E pj (before @ nj # rest) cs =
           Inr (cs @ map (\<lambda>c. CallCreate (NewProwJob E c (Labels pj)))
                       (filter (\<lambda>c. RunAfterSuccessCanRun E pj (NewProwJob E c (Labels pj)) = Inr True) before)
                   @ [CallCreate (NewProwJob E nj (Labels pj))],
                Some (''error starting next prowjob: '' @ err))"
  using assms
proof (induction before arbitrary: cs)
  case Nil
  then show ?case by simp
next
  case (Cons c before)
  obtain b where b: "RunAfterSuccessCanRun E pj (NewProwJob E c (Labels pj)) = Inr b"
    using RunAfterSuccessCanRun_cases [OF Cons.prems(2)] by blast
  show ?case
  proof (cases b)
    case True
    then obtain r where "CreateProwJob E (NewProwJob E c (Labels pj)) = Inr r"
      using b Cons.prems(1) by auto
    then show ?thesis using b True Cons by simp
  next
    case False
    then show ?thesis using b Cons by simp
  qed
qed

text \<open>
  C5: the build snapshot of a record is a success (the switch reaches \<open>IsSuccess\<close>: the
  build is neither enqueued nor running) and \<open>nj\<close> is the first \<open>run_after_success\<close>
  child that may run and whose creation the store refuses. Then \<open>syncPendingJob\<close> returns
  "error starting next prowjob: ..." with that error at once: the calls it has made are
  the creations of the earlier children that may run and the refused one, none for the
  children after \<open>nj\<close>, no Replace; the report channel and \<open>pendingJobs\<close> are as before.
\<close>

theorem syncPendingJob_child_create_error:
  assumes "jbs (Name pj) = Some jb" and "\<not> IsEnqueued jb" and "\<not> IsRunning jb" and "IsSuccess jb"
    and "RunAfterSuccess (Spec pj) = before @ nj # rest"
    and "\<forall>c\<in>set before. RunAfterSuccessCanRun E pj (NewProwJob E c (Labels pj)) = Inr True \<longrightarrow>
              (\<exists>r. CreateProwJob E (NewProwJob E c (Labels pj)) = Inr r)"
    and "RunAfterSuccessCanRun E pj (NewProwJob E nj (Labels pj)) = Inr True"
    and "CreateProwJob E (NewProwJob E nj (Labels pj)) = Inl err"
  shows "syncPendingJob E jbs pj st =
           Inr (st\<lparr>writes := writes st
                     @ map (\<lambda>c. CallCreate (NewProwJob E c (Labels pj)))
                         (filter (\<lambda>c. RunAfterSuccessCanRun E pj (NewProwJob E c (Labels pj)) = Inr True) before)
                     @ [CallCreate (NewProwJob E nj (Labels pj))]\<rparr>,
                Some (''error starting next prowjob: '' @ err))"
proof -
  let ?pj1 = "setCompleted (Now E) SuccessState ''Jenkins job succeeded.'' pj"
  have l: "Labels ?pj1 = Labels pj" and sp: "Spec ?pj1 = Spec pj"
    by (simp_all add: setCompleted_def)
  have run: "\<And>c. RunAfterSuccessCanRun E ?pj1 c = RunAfterSuccessCanRun E pj c"
    by (simp add: setCompleted_def RunAfterSuccessCanRun_Status)
  have "startChildren E ?pj1 (before @ nj # rest) (writes st) =
          Inr (writes st @ map (\<lambda>c. CallCreate (NewProwJob E c (Labels ?pj1)))
                 (filter (\<lambda>c. RunAfterSuccessCanRun E ?pj1 (NewProwJob E c (Labels ?pj1)) = Inr True) before)
                 @ [CallCreate (NewProwJob E nj (Labels ?pj1))],
               Some (''error starting next prowjob: '' @ err))"
    by (rule startChildren_first_failure) (use assms in \<open>simp_all add: l run\<close>)
  then show ?thesis
    using assms(1-5) by (simp add: syncPendingJob_def Let_def l sp run)
qed

text \<open>
  C5, witness: a store that refuses every creation, a successful build, two children: one
  creation is attempted, nothing is reported or replaced.
\<close>

theorem syncPendingJob_child_create_error_witness:
  "syncPendingJob exEnvNoCreate (map_of [(''a'', exBuild 7 False False True)])
     (exPJ ''a'' (exSpec PeriodicJob ''ci-x'' 0 []
                    [exSpec PeriodicJob ''ci-y'' 0 [] [], exSpec PeriodicJob ''ci-z'' 0 [] []])
        (exStatus PendingState 1 None ''Jenkins job running.''))
     exState0
   = Inr (\<lparr>pend = [],
           writes = [CallCreate (NewProwJob exEnvNoCreate (exSpec PeriodicJob ''ci-y'' 0 [] []) [])],
           reports = [], syncErrors = []\<rparr>,
          Some ''error starting next prowjob: quota exceeded'')"
  using syncPendingJob_child_create_error [of "map_of [(''a'', exBuild 7 False False True)]"
     "exPJ ''a'' (exSpec PeriodicJob ''ci-x'' 0 []
                    [exSpec PeriodicJob ''ci-y'' 0 [] [], exSpec PeriodicJob ''ci-z'' 0 [] []])
        (exStatus PendingState 1 None ''Jenkins job running.'')"
     "exBuild 7 False False True" "[]" "exSpec PeriodicJob ''ci-y'' 0 [] []"
     "[exSpec PeriodicJob ''ci-z'' 0 [] []]" exEnvNoCreate "''quota exceeded''" exState0]
  by (simp add: ex_defs RunAfterSuccessCanRun_def)

subsection \<open>The deduper's loop\<close>

lemma dupes_iter_skip:
  "\<not> dedupeCandidate (slice s ! i) \<Longrightarrow> dupes_iter E jbs i s = Inr (s, None)"
  by (auto simp: dupes_iter_def dedupeCandidate_def Let_def)

lemma dupes_iter_panic:
  "dedupeCandidate (slice s ! i) \<Longrightarrow> Pulls (SpecRefs (Spec (slice s ! i))) = [] \<Longrightarrow>
     dupes_iter E jbs i s = Inl IndexOutOfRange"
  by (auto simp: dupes_iter_def dedupeCandidate_def Let_def)

lemma dupes_iter_first:
  "dedupeCandidate (slice s ! i) \<Longrightarrow> firstPullKey (slice s ! i) = Some n \<Longrightarrow> dupes s n = None \<Longrightarrow>
     dupes_iter E jbs i s = Inr (s\<lparr>dupes := (dupes s)(n \<mapsto> i)\<rparr>, None)"
  by (auto simp: dupes_iter_def dedupeCandidate_def firstPullKey_def Let_def split: list.splits)

lemma dupes_iter_dupe:
  assumes "dedupeCandidate (slice s ! i)" and "firstPullKey (slice s ! i) = Some n"
    and "dupes s n = Some prev"
  shows "dupes_iter E jbs i s =
     (let k = cancelIndexOf (slice s) prev i;
          s1 = (if k = i then s else s\<lparr>dupes := (dupes s)(n \<mapsto> i)\<rparr>);
          toCancel = slice s ! k
      in if skipsEnqueued E jbs toCancel then Inr (s1, None)
         else case ReplaceProwJob E (Name toCancel) (setAborted (Now E) toCancel) of
                Inl err \<Rightarrow>
                  Inr (s1\<lparr>calls := calls s @ abortCalls E jbs toCancel
                               @ [CallReplace (Name toCancel) (setAborted (Now E) toCancel)]\<rparr>, Some err)
              | Inr npj \<Rightarrow>
                  Inr (s1\<lparr>slice := (slice s)[k := npj],
                          calls := calls s @ abortCalls E jbs toCancel
                               @ [CallReplace (Name toCancel) (setAborted (Now E) toCancel)]\<rparr>, None))"
  using assms
  apply (auto simp: dupes_iter_def dedupeCandidate_def firstPullKey_def Let_def cancelIndexOf_def
      skipsEnqueued_def abortCalls_def split: list.splits sum.splits option.splits)
  done

lemma dupes_loop_rule:
  assumes "P i s"
    and "\<And>j t t' r. i \<le> j \<Longrightarrow> j < n \<Longrightarrow> P j t \<Longrightarrow> dupes_iter E jbs j t = Inr (t', r) \<Longrightarrow> P (Suc j) t'"
    and "dupes_loop E jbs [i..<n] s = Inr (s', r)"
  shows "\<exists>j. i \<le> j \<and> P j s'"
  using assms
proof (induction "n - i" arbitrary: i s)
  case 0
  then show ?case by auto
next
  case (Suc d)
  then have lt: "i < n" by simp
  then have upt: "[i..<n] = i # [Suc i..<n]" by (simp add: upt_conv_Cons)
  show ?case
  proof (cases "dupes_iter E jbs i s")
    case (Inl p)
    then show ?thesis using Suc.prems(3) upt by simp
  next
    case (Inr tr)
    obtain t r1 where tr: "tr = (t, r1)" by (cases tr)
    have Pt: "P (Suc i) t" using Suc.prems(2)[of i s t r1] lt Suc.prems(1) Inr tr by simp
    show ?thesis
    proof (cases r1)
      case None
      then have "dupes_loop E jbs [Suc i..<n] t = Inr (s', r)"
        using Suc.prems(3) upt Inr tr by simp
      moreover have "d = n - Suc i" using Suc.hyps(2) by simp
      ultimately have "\<exists>j. Suc i \<le> j \<and> P j s'"
        using Suc.hyps(1)[of "Suc i" t] Pt Suc.prems(2) by (metis Suc_leD)
      then show ?thesis using Suc_leD by blast
    next
      case (Some err)
      then have "s' = t" using Suc.prems(3) upt Inr tr by simp
      then show ?thesis using Pt by (metis le_SucI order_refl)
    qed
  qed
qed

lemma dupes_inv_init: "dupes_inv js 0 \<lparr>dupes = Map.empty, slice = js, calls = []\<rparr>"
  by (simp add: dupes_inv_def)


lemma dupes_iter_dupe_shape:
  assumes "dedupeCandidate (slice s ! i)" and "firstPullKey (slice s ! i) = Some n"
    and "dupes s n = Some prev" and "dupes_iter E jbs i s = Inr (s', r)"
  shows "dupes s' = (if cancelIndexOf (slice s) prev i = i then dupes s else (dupes s)(n \<mapsto> i))
    \<and> ((slice s' = slice s \<and> calls s' = calls s \<and> r = None
          \<and> skipsEnqueued E jbs (slice s ! cancelIndexOf (slice s) prev i))
        \<or> (\<not> skipsEnqueued E jbs (slice s ! cancelIndexOf (slice s) prev i)
            \<and> calls s' = calls s @ abortCalls E jbs (slice s ! cancelIndexOf (slice s) prev i)
                  @ [CallReplace (Name (slice s ! cancelIndexOf (slice s) prev i))
                       (setAborted (Now E) (slice s ! cancelIndexOf (slice s) prev i))]
            \<and> ((\<exists>err. ReplaceProwJob E (Name (slice s ! cancelIndexOf (slice s) prev i))
                         (setAborted (Now E) (slice s ! cancelIndexOf (slice s) prev i)) = Inl err
                       \<and> r = Some err \<and> slice s' = slice s)
                \<or> (\<exists>npj. ReplaceProwJob E (Name (slice s ! cancelIndexOf (slice s) prev i))
                         (setAborted (Now E) (slice s ! cancelIndexOf (slice s) prev i)) = Inr npj
                       \<and> r = None
                       \<and> slice s' = (slice s)[cancelIndexOf (slice s) prev i := npj]))))"
  using assms(4) unfolding dupes_iter_dupe [OF assms(1-3)]
  by (auto simp: Let_def split: if_splits sum.splits)

lemma dupes_iter_inv:
  assumes inv: "dupes_inv js i s" and i: "i < length js"
    and it: "dupes_iter E jbs i s = Inr (s', r)"
  shows "dupes_inv js (Suc i) s'"
proof (cases "dedupeCandidate (slice s ! i)")
  case False
  then have "s' = s" using it by (simp add: dupes_iter_skip)
  then show ?thesis using inv by (auto simp: dupes_inv_def less_Suc_eq)
next
  case True
  have len: "length (slice s) = length js"
    and cur: "slice s ! i = js ! i"
    and later: "\<And>j. i \<le> j \<Longrightarrow> j < length js \<Longrightarrow> slice s ! j = js ! j"
    and dup: "\<And>k v. dupes s k = Some v \<Longrightarrow>
           v < i \<and> v < length js \<and> slice s ! v = js ! v \<and> dedupeCandidate (js ! v)
           \<and> firstPullKey (js ! v) = Some k"
    using inv i by (auto simp: dupes_inv_def)
  show ?thesis
  proof (cases "firstPullKey (slice s ! i)")
    case None
    then have "Pulls (SpecRefs (Spec (slice s ! i))) = []"
      by (simp add: firstPullKey_def split: list.splits)
    then show ?thesis using it True by (simp add: dupes_iter_panic)
  next
    case (Some n)
    note key = this
    show ?thesis
    proof (cases "dupes s n")
      case None
      then have s': "s' = s\<lparr>dupes := (dupes s)(n \<mapsto> i)\<rparr>"
        using it True key by (simp add: dupes_iter_first)
      show ?thesis
        unfolding dupes_inv_def
      proof (intro conjI allI impI)
        show "length (slice s') = length js" using s' len by simp
      next
        fix j assume "Suc i \<le> j \<and> j < length js"
        then show "slice s' ! j = js ! j" using s' later by simp
      next
        fix k v assume "dupes s' k = Some v"
        then have "(k = n \<and> v = i) \<or> dupes s k = Some v"
          using s' by (auto split: if_splits)
        then show "v < Suc i" "v < length js" "slice s' ! v = js ! v" "dedupeCandidate (js ! v)"
          "firstPullKey (js ! v) = Some k"
          using dup s' i cur True key by (auto simp: less_Suc_eq)
      qed
    next
      case (Some prev)
      note prev = this
      have p: "prev < i" "prev < length js" "slice s ! prev = js ! prev" "dedupeCandidate (js ! prev)"
        "firstPullKey (js ! prev) = Some n"
        using dup [OF prev] by auto
      let ?k = "cancelIndexOf (slice s) prev i"
      have k: "?k = prev \<or> ?k = i" by (simp add: cancelIndexOf_def)
      note sh = dupes_iter_dupe_shape [OF True key prev it]
      have d': "dupes s' = (if ?k = i then dupes s else (dupes s)(n \<mapsto> i))" using sh by simp
      have sl: "slice s' = slice s \<or> (\<exists>npj. slice s' = (slice s)[?k := npj])" using sh by auto
      show ?thesis
        unfolding dupes_inv_def
      proof (intro conjI allI impI)
        show "length (slice s') = length js" using sl len by auto
      next
        fix j assume j: "Suc i \<le> j \<and> j < length js"
        then have "j \<noteq> ?k" using k p(1) by auto
        then have "slice s' ! j = slice s ! j" using sl by auto
        then show "slice s' ! j = js ! j" using later j by simp
      next
        fix key' v assume a: "dupes s' key' = Some v"
        have "v \<le> i \<and> v < length js \<and> slice s' ! v = js ! v \<and> dedupeCandidate (js ! v)
           \<and> firstPullKey (js ! v) = Some key'"
        proof (cases "?k = i")
          case True
          then have "dupes s key' = Some v" using a d' by simp
          from dup [OF this] have v: "v < i" "v < length js" "slice s ! v = js ! v"
            "dedupeCandidate (js ! v)" "firstPullKey (js ! v) = Some key'" by auto
          then have "v \<noteq> ?k" using True by simp
          then have "slice s' ! v = slice s ! v" using sl by auto
          then show ?thesis using v by simp
        next
          case False
          then have kp: "?k = prev" using k by simp
          have d'': "dupes s' = (dupes s)(n \<mapsto> i)" using d' False by simp
          show ?thesis
          proof (cases "key' = n")
            case True
            then have "v = i" using a d'' by simp
            moreover have "slice s' ! i = slice s ! i" using sl kp p(1) by auto
            ultimately show ?thesis using cur i \<open>dedupeCandidate (slice s ! i)\<close> key True by simp
          next
            case False
            then have "dupes s key' = Some v" using a d'' by simp
            from dup [OF this] have v: "v < i" "v < length js" "slice s ! v = js ! v"
              "dedupeCandidate (js ! v)" "firstPullKey (js ! v) = Some key'" by auto
            then have "v \<noteq> prev" using p(5) False by auto
            then have "slice s' ! v = slice s ! v" using sl kp by auto
            then show ?thesis using v by simp
          qed
        qed
        then show "v < Suc i" "v < length js" "slice s' ! v = js ! v" "dedupeCandidate (js ! v)"
          "firstPullKey (js ! v) = Some key'" by auto
      qed
    qed
  qed
qed

subsection \<open>Reading the first pull\<close>

lemma dupes_iter_Inl:
  "dupes_iter E jbs i s = Inl p \<Longrightarrow>
     p = IndexOutOfRange \<and> dedupeCandidate (slice s ! i) \<and> Pulls (SpecRefs (Spec (slice s ! i))) = []"
  by (auto simp: dupes_iter_def dedupeCandidate_def Let_def
        split: if_splits list.splits option.splits sum.splits)

lemma dupes_iter_Some:
  "dupes_iter E jbs i s = Inr (s', Some err) \<Longrightarrow> \<exists>n r. ReplaceProwJob E n r = Inl err"
  by (auto simp: dupes_iter_def Let_def split: if_splits list.splits option.splits sum.splits)

lemma dupes_loop_Inl: "dupes_loop E jbs xs s = Inl p \<Longrightarrow> p = IndexOutOfRange"
proof (induction xs arbitrary: s)
  case Nil
  then show ?case by simp
next
  case (Cons i xs)
  then show ?case
    by (auto split: sum.splits option.splits prod.splits dest: dupes_iter_Inl)
qed

lemma dupes_loop_Some:
  "dupes_loop E jbs xs s = Inr (s', Some err) \<Longrightarrow> \<exists>n r. ReplaceProwJob E n r = Inl err"
proof (induction xs arbitrary: s)
  case Nil
  then show ?case by simp
next
  case (Cons i xs)
  show ?case
  proof (cases "dupes_iter E jbs i s")
    case (Inl p)
    then show ?thesis using Cons.prems by simp
  next
    case (Inr tr)
    obtain t r1 where tr: "tr = (t, r1)" by (cases tr)
    show ?thesis
    proof (cases r1)
      case None
      then show ?thesis using Cons Inr tr by simp
    next
      case (Some e)
      then have "e = err" using Cons.prems Inr tr by simp
      then show ?thesis using dupes_iter_Some Inr tr Some by blast
    qed
  qed
qed

lemma dupes_loop_no_panic:
  assumes "dupes_inv js i s"
    and "\<forall>pj\<in>set js. dedupeCandidate pj \<longrightarrow> Pulls (SpecRefs (Spec pj)) \<noteq> []"
  shows "\<exists>r. dupes_loop E jbs [i..<length js] s = Inr r"
  using assms(1)
proof (induction "length js - i" arbitrary: i s)
  case 0
  then show ?case by simp
next
  case (Suc d)
  then have lt: "i < length js" by simp
  then have upt: "[i..<length js] = i # [Suc i..<length js]" by (simp add: upt_conv_Cons)
  have cur: "slice s ! i = js ! i" using Suc.prems lt by (simp add: dupes_inv_def)
  have "js ! i \<in> set js" using lt by simp
  then have ok: "dedupeCandidate (js ! i) \<longrightarrow> Pulls (SpecRefs (Spec (js ! i))) \<noteq> []"
    using assms(2) by blast
  show ?case
  proof (cases "dupes_iter E jbs i s")
    case (Inl p)
    then show ?thesis using dupes_iter_Inl [OF Inl] ok cur by simp
  next
    case (Inr tr)
    obtain t r1 where tr: "tr = (t, r1)" by (cases tr)
    have inv': "dupes_inv js (Suc i) t"
      using dupes_iter_inv [OF Suc.prems lt] Inr tr by simp
    show ?thesis
    proof (cases r1)
      case None
      have "d = length js - Suc i" using Suc.hyps(2) by simp
      from Suc.hyps(1) [OF this inv'] show ?thesis using upt Inr tr None by simp
    next
      case (Some e)
      then show ?thesis using upt Inr tr by simp
    qed
  qed
qed

lemma dupes_loop_empty_pulls:
  assumes "dupes_inv js i s" and "i \<le> k" and "k < length js"
    and "dedupeCandidate (js ! k)" and "Pulls (SpecRefs (Spec (js ! k))) = []"
  shows "dupes_loop E jbs [i..<length js] s \<noteq> Inr (s', None)"
  using assms(1,2)
proof (induction "length js - i" arbitrary: i s)
  case 0
  then show ?case using assms(3) by simp
next
  case (Suc d)
  then have lt: "i < length js" by simp
  then have upt: "[i..<length js] = i # [Suc i..<length js]" by (simp add: upt_conv_Cons)
  have cur: "slice s ! i = js ! i" using Suc.prems lt by (simp add: dupes_inv_def)
  show ?case
  proof (cases "dupes_iter E jbs i s")
    case (Inl p)
    then show ?thesis using upt by simp
  next
    case (Inr tr)
    obtain t r1 where tr: "tr = (t, r1)" by (cases tr)
    have "i \<noteq> k" using Inr cur assms(4,5) by (auto simp: dupes_iter_panic)
    then have le: "Suc i \<le> k" using Suc.prems(2) by simp
    have inv': "dupes_inv js (Suc i) t"
      using dupes_iter_inv [OF Suc.prems(1) lt] Inr tr by simp
    show ?thesis
    proof (cases r1)
      case None
      have "d = length js - Suc i" using Suc.hyps(2) by simp
      from Suc.hyps(1) [OF this inv' le] show ?thesis using upt Inr tr None by simp
    next
      case (Some e)
      then show ?thesis using upt Inr tr by simp
    qed
  qed
qed

text \<open>
  C10: \<open>terminateDupes\<close> and \<open>RunAfterSuccessCanRun\<close> read \<open>Pulls[0]\<close> unchecked. When
  every presubmit record of the slice that is not complete has a pull, the deduper returns
  (no panic); when one has none, the deduper never runs to its end: it panics with an index
  out of range, unless a refused Replace made it return before. For a presubmit parent
  \<open>RunAfterSuccessCanRun\<close> panics exactly when the parent's pull list is empty; for any
  other parent it answers true without reading the list.
\<close>

theorem pull_list_access:
  "((\<forall>pj\<in>set js. dedupeCandidate pj \<longrightarrow> Pulls (SpecRefs (Spec pj)) \<noteq> [])
      \<longrightarrow> (\<exists>r. terminateDupes E js jbs = Inr r))
   \<and> ((\<exists>pj\<in>set js. dedupeCandidate pj \<and> Pulls (SpecRefs (Spec pj)) = [])
      \<longrightarrow> (\<forall>s. terminateDupes E js jbs \<noteq> Inr (s, None))
          \<and> ((\<forall>n r. \<exists>npj. ReplaceProwJob E n r = Inr npj)
               \<longrightarrow> terminateDupes E js jbs = Inl IndexOutOfRange))
   \<and> (Type (Spec parent) = PresubmitJob
      \<longrightarrow> (RunAfterSuccessCanRun E parent child = Inl IndexOutOfRange
             \<longleftrightarrow> Pulls (SpecRefs (Spec parent)) = []))
   \<and> (Type (Spec parent) \<noteq> PresubmitJob \<longrightarrow> RunAfterSuccessCanRun E parent child = Inr True)"
proof (intro conjI impI)
  assume "\<forall>pj\<in>set js. dedupeCandidate pj \<longrightarrow> Pulls (SpecRefs (Spec pj)) \<noteq> []"
  then show "\<exists>r. terminateDupes E js jbs = Inr r"
    unfolding terminateDupes_def using dupes_loop_no_panic [OF dupes_inv_init] by blast
next
  assume "\<exists>pj\<in>set js. dedupeCandidate pj \<and> Pulls (SpecRefs (Spec pj)) = []"
  then obtain k where k: "k < length js" "dedupeCandidate (js ! k)"
      "Pulls (SpecRefs (Spec (js ! k))) = []"
    by (auto simp: in_set_conv_nth)
  show never: "\<forall>s. terminateDupes E js jbs \<noteq> Inr (s, None)"
    unfolding terminateDupes_def
    using dupes_loop_empty_pulls [OF dupes_inv_init _ k] by blast
  assume store: "\<forall>n r. \<exists>npj. ReplaceProwJob E n r = Inr npj"
  show "terminateDupes E js jbs = Inl IndexOutOfRange"
  proof (cases "terminateDupes E js jbs")
    case (Inl p)
    then show ?thesis using dupes_loop_Inl by (simp add: terminateDupes_def)
  next
    case (Inr sr)
    obtain s r where sr: "sr = (s, r)" by (cases sr)
    show ?thesis
    proof (cases r)
      case None
      then show ?thesis using never Inr sr by simp
    next
      case (Some e)
      then have "\<exists>n r. ReplaceProwJob E n r = Inl e"
        using dupes_loop_Some Inr sr unfolding terminateDupes_def by blast
      then show ?thesis using store by (metis sum.distinct(1))
    qed
  qed
next
  assume "Type (Spec parent) = PresubmitJob"
  then show "RunAfterSuccessCanRun E parent child = Inl IndexOutOfRange
             \<longleftrightarrow> Pulls (SpecRefs (Spec parent)) = []"
    by (auto simp: RunAfterSuccessCanRun_def Let_def split: list.splits option.splits sum.splits)
next
  assume "Type (Spec parent) \<noteq> PresubmitJob"
  then show "RunAfterSuccessCanRun E parent child = Inr True"
    by (simp add: RunAfterSuccessCanRun_def)
qed

text \<open>
  C10, witness: a presubmit record with pull 7 passes the deduper; one with no pull makes
  the deduper and the follow-up check panic; a periodic parent is never looked at.
\<close>

theorem pull_list_access_witness:
  "(\<exists>r. terminateDupes (exEnv [] [] False)
           [exPJ ''a'' (exSpec PresubmitJob ''pull-x'' 0 [\<lparr>Number = 7, SHA = ''abc''\<rparr>] [])
              (exStatus TriggeredState 1 None [])] Map.empty = Inr r)
   \<and> terminateDupes (exEnv [] [] False)
           [exPJ ''b'' (exSpec PresubmitJob ''pull-x'' 0 [] []) (exStatus TriggeredState 1 None [])]
           Map.empty = Inl IndexOutOfRange
   \<and> RunAfterSuccessCanRun (exEnv [] [] False)
        (exPJ ''b'' (exSpec PresubmitJob ''pull-x'' 0 [] []) (exStatus TriggeredState 1 None []))
        (exPJ ''c'' (exSpec PresubmitJob ''pull-y'' 0 [] []) (exStatus TriggeredState 1 None []))
      = Inl IndexOutOfRange
   \<and> RunAfterSuccessCanRun (exEnv [] [] False)
        (exPJ ''d'' (exSpec PeriodicJob ''ci-x'' 0 [] []) (exStatus TriggeredState 1 None []))
        (exPJ ''c'' (exSpec PresubmitJob ''pull-y'' 0 [] []) (exStatus TriggeredState 1 None []))
      = Inr True"
  using pull_list_access [of
          "[exPJ ''a'' (exSpec PresubmitJob ''pull-x'' 0 [\<lparr>Number = 7, SHA = ''abc''\<rparr>] [])
              (exStatus TriggeredState 1 None [])]"
          "exEnv [] [] False" Map.empty
          "exPJ ''d'' (exSpec PeriodicJob ''ci-x'' 0 [] []) (exStatus TriggeredState 1 None [])"
          "exPJ ''c'' (exSpec PresubmitJob ''pull-y'' 0 [] []) (exStatus TriggeredState 1 None [])"]
        pull_list_access [of
          "[exPJ ''b'' (exSpec PresubmitJob ''pull-x'' 0 [] []) (exStatus TriggeredState 1 None [])]"
          "exEnv [] [] False" Map.empty
          "exPJ ''b'' (exSpec PresubmitJob ''pull-x'' 0 [] []) (exStatus TriggeredState 1 None [])"
          "exPJ ''c'' (exSpec PresubmitJob ''pull-y'' 0 [] []) (exStatus TriggeredState 1 None [])"]
  by (simp add: ex_defs dedupeCandidate_def Complete_def)

subsection \<open>Which record the deduper keeps\<close>

lemma replacedName_abortCalls: "c \<in> set (abortCalls E jbs pj) \<Longrightarrow> replacedName c = None"
  by (cases "jbs (Name pj)"; cases "cfgAllowCancellations E") (auto simp: abortCalls_def)

text \<open>
  C3, as the code has it: among the presubmit records that are not complete and share a
  dedupe key (the string "job org/repo#number" of the first pull), the record with the
  greatest start time is never cancelled, and of several records with that greatest start
  time it is the one seen first: if record \<open>i\<close> started strictly after every such record
  before it and no earlier than every such record after it, a pass that returns leaves the
  slice entry \<open>i\<close> as listed and makes no Replace call under its name (names being
  distinct in the listing).
\<close>

theorem terminateDupes_survivor:
  assumes run: "terminateDupes E js jbs = Inr (s', r)"
    and i: "i < length js" and cand: "dedupeCandidate (js ! i)"
    and best: "\<forall>j<length js. j \<noteq> i \<and> dedupeCandidate (js ! j)
                  \<and> firstPullKey (js ! j) = firstPullKey (js ! i) \<longrightarrow>
                (if j < i then StartTime (Status (js ! j)) < StartTime (Status (js ! i))
                 else StartTime (Status (js ! j)) \<le> StartTime (Status (js ! i)))"
    and names: "distinct (map Name js)"
  shows "slice s' ! i = js ! i \<and> (\<forall>c\<in>set (calls s'). replacedName c \<noteq> Some (Name (js ! i)))"
proof -
  let ?P = "\<lambda>j s. dupes_inv js j s \<and> slice s ! i = js ! i
                \<and> (\<forall>c\<in>set (calls s). replacedName c \<noteq> Some (Name (js ! i)))"
  have step: "?P (Suc j) t'" if j: "j < length js" and P: "?P j t"
    and it: "dupes_iter E jbs j t = Inr (t', r1)" for j t t' r1
  proof -
    have inv: "dupes_inv js j t" using P by simp
    have inv': "dupes_inv js (Suc j) t'" by (rule dupes_iter_inv [OF inv j it])
    have cur: "slice t ! j = js ! j" using inv j by (simp add: dupes_inv_def)
    show ?thesis
    proof (cases "dedupeCandidate (slice t ! j)")
      case False
      then have "t' = t" using it by (simp add: dupes_iter_skip)
      then show ?thesis using P inv' by simp
    next
      case True
      show ?thesis
      proof (cases "firstPullKey (slice t ! j)")
        case None
        then have "Pulls (SpecRefs (Spec (slice t ! j))) = []"
          by (simp add: firstPullKey_def split: list.splits)
        then show ?thesis using it True by (simp add: dupes_iter_panic)
      next
        case (Some n)
        note key = this
        show ?thesis
        proof (cases "dupes t n")
          case None
          then have "t' = t\<lparr>dupes := (dupes t)(n \<mapsto> j)\<rparr>"
            using it True key by (simp add: dupes_iter_first)
          then show ?thesis using P inv' by simp
        next
          case (Some prev)
          have p: "prev < j" "prev < length js" "slice t ! prev = js ! prev"
            "dedupeCandidate (js ! prev)" "firstPullKey (js ! prev) = Some n"
            using inv Some by (auto simp: dupes_inv_def)
          let ?k = "cancelIndexOf (slice t) prev j"
          have k: "?k = (if StartTime (Status (js ! prev)) < StartTime (Status (js ! j)) then prev else j)"
            by (simp add: cancelIndexOf_def p(3) cur)
          have klen: "?k < length js" using k p(2) j by simp
          have ki: "?k \<noteq> i"
          proof
            assume e: "?k = i"
            show False
            proof (cases "StartTime (Status (js ! prev)) < StartTime (Status (js ! j))")
              case True
              then have pi: "prev = i" using k e by simp
              then have "j \<noteq> i" "\<not> j < i" using p(1) by auto
              moreover have "dedupeCandidate (js ! j)" "firstPullKey (js ! j) = firstPullKey (js ! i)"
                using \<open>dedupeCandidate (slice t ! j)\<close> key cur p(5) pi by auto
              ultimately have "StartTime (Status (js ! j)) \<le> StartTime (Status (js ! i))"
                using best j by (metis (no_types, lifting))
              then show False using True pi by simp
            next
              case False
              then have ji: "j = i" using k e by simp
              then have "prev \<noteq> i" "prev < i" using p(1) by auto
              moreover have "firstPullKey (js ! prev) = firstPullKey (js ! i)"
                using key cur p(5) ji by auto
              ultimately have "StartTime (Status (js ! prev)) < StartTime (Status (js ! i))"
                using best p(2,4) by (metis (no_types, lifting))
              then show False using False ji by simp
            qed
          qed
          have nm: "Name (slice t ! ?k) \<noteq> Name (js ! i)"
          proof -
            have "slice t ! ?k = js ! ?k" using k p(3) cur by auto
            moreover have "Name (js ! ?k) \<noteq> Name (js ! i)"
              using names ki klen i by (metis distinct_conv_nth length_map nth_map)
            ultimately show ?thesis by simp
          qed
          note sh = dupes_iter_dupe_shape [OF True key Some it]
          have sl: "slice t' ! i = slice t ! i" using sh ki by auto
          have cs: "\<forall>c\<in>set (calls t'). replacedName c \<noteq> Some (Name (js ! i))"
            using sh P nm replacedName_abortCalls [of _ E jbs "slice t ! ?k"] by auto
          show ?thesis using inv' sl cs P by simp
        qed
      qed
    qed
  qed
  have "\<exists>j. 0 \<le> j \<and> ?P j s'"
  proof (rule dupes_loop_rule [where P = ?P and n = "length js" and E = E and jbs = jbs and r = r])
    show "?P 0 \<lparr>dupes = Map.empty, slice = js, calls = []\<rparr>"
      using dupes_inv_init by simp
    show "dupes_loop E jbs [0..<length js] \<lparr>dupes = Map.empty, slice = js, calls = []\<rparr> = Inr (s', r)"
      using run by (simp add: terminateDupes_def)
  qed (use step in blast)
  then show ?thesis by blast
qed

lemma upt2: "[0..<2] = [0, 1]"
  by (simp add: upt_conv_Cons numeral_2_eq_2)

lemmas dedupe_eval =
  terminateDupes_def dupes_iter_def upt2 ex_defs Complete_def dupeKey_def Let_def setAborted_def

text \<open>
  C3, counterexample to the tie-break as worded (the later-seen record survives): \<open>a\<close> and
  \<open>b\<close> share key and start time 5; the pass aborts \<open>b\<close>, the later one, and keeps \<open>a\<close>.
\<close>

theorem terminateDupes_tie_counterexample:
  "(case terminateDupes (exEnv [] [] False)
           [exPresubmit ''a'' 5 TriggeredState, exPresubmit ''b'' 5 TriggeredState] Map.empty of
      Inl p \<Rightarrow> False
    | Inr (s, r) \<Rightarrow>
        slice s = [exPresubmit ''a'' 5 TriggeredState,
                   setAborted 100 (exPresubmit ''b'' 5 TriggeredState)]
        \<and> calls s = [CallReplace ''b'' (setAborted 100 (exPresubmit ''b'' 5 TriggeredState))]
        \<and> r = None)"
  by (simp add: dedupe_eval)

text \<open>
  C3, witness: \<open>a\<close> started at 5 and \<open>b\<close> at 9 for the same pull; \<open>b\<close> is kept and \<open>a\<close> is
  aborted in the slice.
\<close>

theorem terminateDupes_survivor_witness:
  "(case terminateDupes (exEnv [] [] False)
           [exPresubmit ''a'' 5 TriggeredState, exPresubmit ''b'' 9 TriggeredState] Map.empty of
      Inl p \<Rightarrow> False
    | Inr (s, r) \<Rightarrow>
        slice s ! 1 = exPresubmit ''b'' 9 TriggeredState
        \<and> list_all (\<lambda>c. replacedName c \<noteq> Some ''b'') (calls s)
        \<and> slice s ! 0 = setAborted 100 (exPresubmit ''a'' 5 TriggeredState))"
proof -
  let ?js = "[exPresubmit ''a'' 5 TriggeredState, exPresubmit ''b'' 9 TriggeredState]"
  have "\<exists>s r. terminateDupes (exEnv [] [] False) ?js Map.empty = Inr (s, r)
           \<and> slice s ! 0 = setAborted 100 (exPresubmit ''a'' 5 TriggeredState)"
    by (simp add: dedupe_eval)
  then obtain s r where run: "terminateDupes (exEnv [] [] False) ?js Map.empty = Inr (s, r)"
    and a: "slice s ! 0 = setAborted 100 (exPresubmit ''a'' 5 TriggeredState)"
    by blast
  have "slice s ! 1 = ?js ! 1 \<and> (\<forall>c\<in>set (calls s). replacedName c \<noteq> Some (Name (?js ! 1)))"
    by (rule terminateDupes_survivor [OF run])
      (simp_all add: ex_defs dedupeCandidate_def Complete_def less_Suc_eq firstPullKey_def)
  then show ?thesis using run a by (simp add: list_all_iff ex_defs)
qed

subsection \<open>The deduper's calls\<close>

lemma dedupeCallOk_abortCalls:
  assumes "pj \<in> set js" and "dedupeCandidate pj" and "\<not> skipsEnqueued E jbs pj"
    and "c \<in> set (abortCalls E jbs pj)"
  shows "dedupeCallOk E jbs js c"
proof (cases "cfgAllowCancellations E")
  case False
  then show ?thesis using assms(4) by (simp add: abortCalls_def)
next
  case True
  show ?thesis
  proof (cases "jbs (Name pj)")
    case None
    then show ?thesis using assms(4) True by (simp add: abortCalls_def)
  next
    case (Some b)
    then have "c = CallAbort (Job (Spec pj)) b" using assms(4) True by (simp add: abortCalls_def)
    moreover have "\<not> IsEnqueued b" using assms(3) True Some by (simp add: skipsEnqueued_def)
    ultimately show ?thesis using assms(1,2) True Some by auto
  qed
qed

lemma dedupedEntry_mono: "dedupedEntry E cs a b \<Longrightarrow> set cs \<subseteq> set cs' \<Longrightarrow> dedupedEntry E cs' a b"
  by (auto simp: dedupedEntry_def)

lemma pass_inv_step:
  assumes j: "j < length js" and P: "pass_inv E jbs js j t"
    and it: "dupes_iter E jbs j t = Inr (t', r1)"
  shows "pass_inv E jbs js (Suc j) t'"
proof -
  have inv: "dupes_inv js j t"
    and ok: "\<forall>c\<in>set (calls t). dedupeCallOk E jbs js c"
    and ent: "\<And>k. k < length js \<Longrightarrow> dedupedEntry E (calls t) (js ! k) (slice t ! k)"
    using P by (auto simp: pass_inv_def)
  have inv': "dupes_inv js (Suc j) t'" by (rule dupes_iter_inv [OF inv j it])
  have cur: "slice t ! j = js ! j" using inv j by (simp add: dupes_inv_def)
  have len: "length (slice t) = length js" using inv by (simp add: dupes_inv_def)
  show ?thesis
  proof (cases "dedupeCandidate (slice t ! j)")
    case False
    then have "t' = t" using it by (simp add: dupes_iter_skip)
    then show ?thesis using P inv' by (simp add: pass_inv_def)
  next
    case True
    show ?thesis
    proof (cases "firstPullKey (slice t ! j)")
      case None
      then have "Pulls (SpecRefs (Spec (slice t ! j))) = []"
        by (simp add: firstPullKey_def split: list.splits)
      then show ?thesis using it True by (simp add: dupes_iter_panic)
    next
      case (Some n)
      note key = this
      show ?thesis
      proof (cases "dupes t n")
        case None
        then have "t' = t\<lparr>dupes := (dupes t)(n \<mapsto> j)\<rparr>"
          using it True key by (simp add: dupes_iter_first)
        then show ?thesis using P inv' by (simp add: pass_inv_def)
      next
        case (Some prev)
        have p: "prev < j" "prev < length js" "slice t ! prev = js ! prev"
          "dedupeCandidate (js ! prev)"
          using inv Some by (auto simp: dupes_inv_def)
        let ?k = "cancelIndexOf (slice t) prev j"
        let ?tc = "js ! ?k"
        have k: "?k = prev \<or> ?k = j" by (simp add: cancelIndexOf_def)
        have klen: "?k < length js" using k p(2) j by auto
        have tc: "slice t ! ?k = ?tc" using k p(3) cur by auto
        have tcc: "dedupeCandidate ?tc" using k p(4) True cur by auto
        have tcs: "?tc \<in> set js" using klen by simp
        note sh = dupes_iter_dupe_shape [OF True key Some it, unfolded tc]
        show ?thesis
        proof (cases "skipsEnqueued E jbs ?tc")
          case True
          then have "slice t' = slice t" "calls t' = calls t" using sh by auto
          then show ?thesis using P inv' by (simp add: pass_inv_def)
        next
          case False
          let ?new = "abortCalls E jbs ?tc @ [CallReplace (Name ?tc) (setAborted (Now E) ?tc)]"
          have cs: "calls t' = calls t @ ?new" using sh False by auto
          have ok': "\<forall>c\<in>set (calls t'). dedupeCallOk E jbs js c"
          proof
            fix c assume "c \<in> set (calls t')"
            then consider "c \<in> set (calls t)" | "c \<in> set (abortCalls E jbs ?tc)"
              | "c = CallReplace (Name ?tc) (setAborted (Now E) ?tc)"
              using cs by auto
            then show "dedupeCallOk E jbs js c"
            proof cases
              case 1
              then show ?thesis using ok by blast
            next
              case 2
              then show ?thesis using dedupeCallOk_abortCalls [OF tcs tcc False] by blast
            next
              case 3
              then show ?thesis using tcs tcc by auto
            qed
          qed
          have sub: "set (calls t) \<subseteq> set (calls t')" using cs by auto
          have ent': "dedupedEntry E (calls t') (js ! m) (slice t' ! m)" if m: "m < length js" for m
          proof (cases "slice t' ! m = slice t ! m")
            case True
            then show ?thesis using ent [OF m] sub dedupedEntry_mono by metis
          next
            case False
            then obtain npj where npj: "slice t' = (slice t)[?k := npj]"
              "ReplaceProwJob E (Name ?tc) (setAborted (Now E) ?tc) = Inr npj"
              using sh by auto
            then have "m = ?k" using False by (metis nth_list_update_neq)
            then have "slice t' ! m = npj" using npj(1) len klen by simp
            then show ?thesis using npj(2) tcc cs \<open>m = ?k\<close> by (simp add: dedupedEntry_def)
          qed
          show ?thesis using inv' ok' ent' by (simp add: pass_inv_def)
        qed
      qed
    qed
  qed
qed

lemma terminateDupes_pass:
  assumes "terminateDupes E js jbs = Inr (s', r)"
  shows "length (slice s') = length js"
    and "\<forall>c\<in>set (calls s'). dedupeCallOk E jbs js c"
    and "\<forall>k<length js. dedupedEntry E (calls s') (js ! k) (slice s' ! k)"
proof -
  have "\<exists>j. 0 \<le> j \<and> pass_inv E jbs js j s'"
  proof (rule dupes_loop_rule [where P = "pass_inv E jbs js" and n = "length js" and E = E
          and jbs = jbs and r = r])
    show "pass_inv E jbs js 0 \<lparr>dupes = Map.empty, slice = js, calls = []\<rparr>"
      using dupes_inv_init by (simp add: pass_inv_def dedupedEntry_def)
    show "dupes_loop E jbs [0..<length js] \<lparr>dupes = Map.empty, slice = js, calls = []\<rparr> = Inr (s', r)"
      using assms by (simp add: terminateDupes_def)
  qed (use pass_inv_step in blast)
  then show "length (slice s') = length js"
    and "\<forall>c\<in>set (calls s'). dedupeCallOk E jbs js c"
    and "\<forall>k<length js. dedupedEntry E (calls s') (js ! k) (slice s' ! k)"
    by (auto simp: pass_inv_def dupes_inv_def)
qed

subsection \<open>What the deduper does with a loser\<close>

lemma dupes_iter_Some_last:
  assumes "dupes_iter E jbs i s = Inr (s', Some err)"
  shows "\<exists>n q. calls s' \<noteq> [] \<and> last (calls s') = CallReplace n q \<and> ReplaceProwJob E n q = Inl err"
  using assms
  by (auto simp: dupes_iter_def Let_def split: if_splits list.splits option.splits sum.splits)

lemma dupes_loop_Some_last:
  "dupes_loop E jbs xs s = Inr (s', Some err) \<Longrightarrow>
     \<exists>n q. calls s' \<noteq> [] \<and> last (calls s') = CallReplace n q \<and> ReplaceProwJob E n q = Inl err"
proof (induction xs arbitrary: s)
  case Nil
  then show ?case by simp
next
  case (Cons i xs)
  show ?case
  proof (cases "dupes_iter E jbs i s")
    case (Inl p)
    then show ?thesis using Cons.prems by simp
  next
    case (Inr tr)
    obtain t r1 where tr: "tr = (t, r1)" by (cases tr)
    show ?thesis
    proof (cases r1)
      case None
      then show ?thesis using Cons Inr tr by simp
    next
      case (Some e)
      then have "e = err" "t = s'" using Cons.prems Inr tr by simp_all
      then show ?thesis using dupes_iter_Some_last Inr tr Some by blast
    qed
  qed
qed

text \<open>
  C4, as the code has it. An iteration finds the key of record \<open>i\<close> filed under \<open>prev\<close> and
  picks the loser \<open>toCancel\<close>. With cancellations allowed and the loser's build enqueued,
  the iteration leaves the loser alone altogether: no Abort, no status change, no Replace.
  In every other case it calls Abort exactly when cancellations are allowed and a build
  exists (Abort's own error is ignored), then Replace with completion time = now and
  state = aborted; a refused Replace ends the pass with that error, an accepted one puts
  the store's answer into the slice. Over a whole pass: every call is such an Abort or
  Replace of a candidate of the listing, and a pass that returns an error stopped right
  after the Replace that was refused with it.
\<close>

theorem dedupe_loser_handling:
  assumes cand: "dedupeCandidate (slice s ! i)"
    and key: "firstPullKey (slice s ! i) = Some n"
    and prev: "dupes s n = Some prev"
    and tc: "toCancel = slice s ! cancelIndexOf (slice s) prev i"
    and ab: "aborted = toCancel\<lparr>Status := (Status toCancel)\<lparr>CompletionTime := Some (Now E),
                                                              State := AbortedState\<rparr>\<rparr>"
  shows "(cfgAllowCancellations E \<and> (\<exists>b. jbs (Name toCancel) = Some b \<and> IsEnqueued b) \<longrightarrow>
            (\<exists>s'. dupes_iter E jbs i s = Inr (s', None) \<and> slice s' = slice s \<and> calls s' = calls s))
       \<and> (\<not> (cfgAllowCancellations E \<and> (\<exists>b. jbs (Name toCancel) = Some b \<and> IsEnqueued b)) \<longrightarrow>
            (\<exists>s' r. dupes_iter E jbs i s = Inr (s', r)
               \<and> calls s' = calls s
                    @ (if cfgAllowCancellations E
                       then (case jbs (Name toCancel) of None \<Rightarrow> []
                             | Some b \<Rightarrow> [CallAbort (Job (Spec toCancel)) b])
                       else [])
                    @ [CallReplace (Name toCancel) aborted]
               \<and> (case ReplaceProwJob E (Name toCancel) aborted of
                     Inl err \<Rightarrow> r = Some err \<and> slice s' = slice s
                        \<and> (\<forall>rest. dupes_loop E jbs (i # rest) s = Inr (s', Some err))
                   | Inr npj \<Rightarrow> r = None
                        \<and> slice s' = (slice s)[cancelIndexOf (slice s) prev i := npj])))
       \<and> (\<forall>js t r. terminateDupes E js jbs = Inr (t, r) \<longrightarrow>
             (\<forall>c\<in>set (calls t). dedupeCallOk E jbs js c)
             \<and> (\<forall>err. r = Some err \<longrightarrow>
                   calls t \<noteq> []
                   \<and> (\<exists>m q. last (calls t) = CallReplace m q \<and> ReplaceProwJob E m q = Inl err)))"
proof (intro conjI impI allI)
  assume "cfgAllowCancellations E \<and> (\<exists>b. jbs (Name toCancel) = Some b \<and> IsEnqueued b)"
  then have "skipsEnqueued E jbs toCancel" by (auto simp: skipsEnqueued_def)
  then show "\<exists>s'. dupes_iter E jbs i s = Inr (s', None) \<and> slice s' = slice s \<and> calls s' = calls s"
    unfolding dupes_iter_dupe [OF cand key prev] using tc by (simp add: Let_def)
next
  assume "\<not> (cfgAllowCancellations E \<and> (\<exists>b. jbs (Name toCancel) = Some b \<and> IsEnqueued b))"
  then have ns: "\<not> skipsEnqueued E jbs toCancel"
    by (auto simp: skipsEnqueued_def split: option.splits)
  have ab': "aborted = setAborted (Now E) toCancel" using ab by (simp add: setAborted_def)
  have ac: "(if cfgAllowCancellations E
             then (case jbs (Name toCancel) of None \<Rightarrow> []
                   | Some b \<Rightarrow> [CallAbort (Job (Spec toCancel)) b])
             else []) = abortCalls E jbs toCancel"
    by (simp add: abortCalls_def)
  show "\<exists>s' r. dupes_iter E jbs i s = Inr (s', r)
               \<and> calls s' = calls s
                    @ (if cfgAllowCancellations E
                       then (case jbs (Name toCancel) of None \<Rightarrow> []
                             | Some b \<Rightarrow> [CallAbort (Job (Spec toCancel)) b])
                       else [])
                    @ [CallReplace (Name toCancel) aborted]
               \<and> (case ReplaceProwJob E (Name toCancel) aborted of
                     Inl err \<Rightarrow> r = Some err \<and> slice s' = slice s
                        \<and> (\<forall>rest. dupes_loop E jbs (i # rest) s = Inr (s', Some err))
                   | Inr npj \<Rightarrow> r = None
                        \<and> slice s' = (slice s)[cancelIndexOf (slice s) prev i := npj])"
    unfolding ac ab'
  proof (cases "ReplaceProwJob E (Name toCancel) (setAborted (Now E) toCancel)")
    case (Inl err)
    then show "\<exists>s' r. dupes_iter E jbs i s = Inr (s', r)
               \<and> calls s' = calls s @ abortCalls E jbs toCancel
                    @ [CallReplace (Name toCancel) (setAborted (Now E) toCancel)]
               \<and> (case ReplaceProwJob E (Name toCancel) (setAborted (Now E) toCancel) of
                     Inl err \<Rightarrow> r = Some err \<and> slice s' = slice s
                        \<and> (\<forall>rest. dupes_loop E jbs (i # rest) s = Inr (s', Some err))
                   | Inr npj \<Rightarrow> r = None
                        \<and> slice s' = (slice s)[cancelIndexOf (slice s) prev i := npj])"
      using ns tc by (simp add: dupes_iter_dupe [OF cand key prev] Let_def)
  next
    case (Inr npj)
    then show "\<exists>s' r. dupes_iter E jbs i s = Inr (s', r)
               \<and> calls s' = calls s @ abortCalls E jbs toCancel
                    @ [CallReplace (Name toCancel) (setAborted (Now E) toCancel)]
               \<and> (case ReplaceProwJob E (Name toCancel) (setAborted (Now E) toCancel) of
                     Inl err \<Rightarrow> r = Some err \<and> slice s' = slice s
                        \<and> (\<forall>rest. dupes_loop E jbs (i # rest) s = Inr (s', Some err))
                   | Inr npj \<Rightarrow> r = None
                        \<and> slice s' = (slice s)[cancelIndexOf (slice s) prev i := npj])"
      using ns tc by (simp add: dupes_iter_dupe [OF cand key prev] Let_def)
  qed
next
  fix js t r assume run: "terminateDupes E js jbs = Inr (t, r)"
  show "\<forall>c\<in>set (calls t). dedupeCallOk E jbs js c"
    by (rule terminateDupes_pass(2) [OF run])
  fix err assume "r = Some err"
  then have "\<exists>m q. calls t \<noteq> [] \<and> last (calls t) = CallReplace m q \<and> ReplaceProwJob E m q = Inl err"
    using dupes_loop_Some_last run unfolding terminateDupes_def by blast
  then show "calls t \<noteq> []"
    and "\<exists>m q. last (calls t) = CallReplace m q \<and> ReplaceProwJob E m q = Inl err"
    by auto
qed

text \<open>
  C4, counterexample to "every loser is set to aborted and persisted": cancellations
  allowed, the loser \<open>a\<close> has an enqueued build; the pass makes no call and leaves \<open>a\<close> as
  it was.
\<close>

theorem dedupe_loser_enqueued_counterexample:
  "(case terminateDupes (exEnv [] [] True)
           [exPresubmit ''a'' 5 PendingState, exPresubmit ''b'' 9 TriggeredState]
           (map_of [(''a'', exBuild 3 True False False)]) of
      Inl p \<Rightarrow> False
    | Inr (s, r) \<Rightarrow>
        slice s = [exPresubmit ''a'' 5 PendingState, exPresubmit ''b'' 9 TriggeredState]
        \<and> calls s = [] \<and> r = None)"
  by (simp add: dedupe_eval)

text \<open>
  C4, witness: cancellations allowed, \<open>a\<close> (older, build running) loses to \<open>b\<close>: the build
  is aborted and \<open>a\<close> is replaced as aborted.
\<close>

theorem dedupe_loser_handling_witness:
  "(case dupes_iter (exEnv [] [] True) (map_of [(''a'', exBuild 3 False True False)]) 1
           \<lparr>dupes = [dupeKey (exPresubmit ''a'' 5 PendingState) \<lparr>Number = 7, SHA = ''abc''\<rparr> \<mapsto> 0],
            slice = [exPresubmit ''a'' 5 PendingState, exPresubmit ''b'' 9 TriggeredState],
            calls = []\<rparr> of
      Inl p \<Rightarrow> False
    | Inr (s', r) \<Rightarrow>
        calls s' = [CallAbort ''pull-x'' (exBuild 3 False True False),
                    CallReplace ''a'' (setAborted 100 (exPresubmit ''a'' 5 PendingState))]
        \<and> slice s' = [setAborted 100 (exPresubmit ''a'' 5 PendingState),
                       exPresubmit ''b'' 9 TriggeredState]
        \<and> r = None)
   \<and> (case terminateDupes (exEnv [] [] True)
           [exPresubmit ''a'' 5 PendingState, exPresubmit ''b'' 9 TriggeredState]
           (map_of [(''a'', exBuild 3 False True False)]) of
      Inl p \<Rightarrow> False
    | Inr (t, r) \<Rightarrow>
        list_all (dedupeCallOk (exEnv [] [] True) (map_of [(''a'', exBuild 3 False True False)])
                    [exPresubmit ''a'' 5 PendingState, exPresubmit ''b'' 9 TriggeredState]) (calls t)
        \<and> calls t \<noteq> [])"
proof -
  let ?E = "exEnv [] [] True"
  let ?jbs = "map_of [(''a'', exBuild 3 False True False)]"
  let ?a = "exPresubmit ''a'' 5 PendingState"
  let ?js = "[?a, exPresubmit ''b'' 9 TriggeredState]"
  let ?s = "\<lparr>dupes = [dupeKey ?a \<lparr>Number = 7, SHA = ''abc''\<rparr> \<mapsto> 0], slice = ?js, calls = []\<rparr>"
  have c: "cancelIndexOf ?js 0 1 = 0" by (simp add: cancelIndexOf_def ex_defs)
  note th = dedupe_loser_handling [of ?s 1 "dupeKey ?a \<lparr>Number = 7, SHA = ''abc''\<rparr>" 0 ?a
      "setAborted 100 ?a" ?E ?jbs]
  have h1: "dedupeCandidate (slice ?s ! 1)" by (simp add: dedupeCandidate_def Complete_def ex_defs)
  have h2: "firstPullKey (slice ?s ! 1) = Some (dupeKey ?a \<lparr>Number = 7, SHA = ''abc''\<rparr>)"
    by (simp add: firstPullKey_def dupeKey_def ex_defs)
  have h3: "dupes ?s (dupeKey ?a \<lparr>Number = 7, SHA = ''abc''\<rparr>) = Some 0" by simp
  have h4: "?a = slice ?s ! cancelIndexOf (slice ?s) 0 1" using c by simp
  have h5: "setAborted 100 ?a = ?a\<lparr>Status := (Status ?a)\<lparr>CompletionTime := Some (Now ?E),
                                                            State := AbortedState\<rparr>\<rparr>"
    by (simp add: setAborted_def ex_defs)
  note th' = th [OF h1 h2 h3 h4 h5]
  have n: "\<not> (cfgAllowCancellations ?E \<and> (\<exists>b. ?jbs (Name ?a) = Some b \<and> IsEnqueued b))"
    by (simp add: ex_defs)
  from th' n obtain s' r where it: "dupes_iter ?E ?jbs 1 ?s = Inr (s', r)"
    and cs: "calls s' = calls ?s
                    @ (if cfgAllowCancellations ?E
                       then (case ?jbs (Name ?a) of None \<Rightarrow> []
                             | Some b \<Rightarrow> [CallAbort (Job (Spec ?a)) b])
                       else [])
                    @ [CallReplace (Name ?a) (setAborted 100 ?a)]"
    and rp: "(case ReplaceProwJob ?E (Name ?a) (setAborted 100 ?a) of
                     Inl err \<Rightarrow> r = Some err \<and> slice s' = slice ?s
                        \<and> (\<forall>rest. dupes_loop ?E ?jbs (1 # rest) ?s = Inr (s', Some err))
                   | Inr npj \<Rightarrow> r = None
                        \<and> slice s' = (slice ?s)[cancelIndexOf (slice ?s) 0 1 := npj])"
    by blast
  have first: "calls s' = [CallAbort ''pull-x'' (exBuild 3 False True False),
                    CallReplace ''a'' (setAborted 100 ?a)]
        \<and> slice s' = [setAborted 100 ?a, exPresubmit ''b'' 9 TriggeredState] \<and> r = None"
    using cs rp c by (simp add: ex_defs)
  have "\<exists>t r. terminateDupes ?E ?js ?jbs = Inr (t, r) \<and> calls t \<noteq> []"
    by (simp add: dedupe_eval)
  then obtain t r2 where run: "terminateDupes ?E ?js ?jbs = Inr (t, r2)" and ne: "calls t \<noteq> []"
    by blast
  have "\<forall>c\<in>set (calls t). dedupeCallOk ?E ?jbs ?js c" using th' run by blast
  then show ?thesis using it first run ne by (simp add: list_all_iff)
qed

subsection \<open>What a driver does to the shared state\<close>

lemma replacedRecords_simps [simp]:
  "replacedRecords [] = []"
  "replacedRecords (CallReplace n q # cs) = q # replacedRecords cs"
  "replacedRecords (CallCreate q # cs) = replacedRecords cs"
  "replacedRecords (CallBuild q # cs) = replacedRecords cs"
  "replacedRecords (CallAbort j b # cs) = replacedRecords cs"
  "replacedRecords (xs @ ys) = replacedRecords xs @ replacedRecords ys"
  by (simp_all add: replacedRecords_def List.map_filter_def)

lemma reportAndReplace_effects:
  assumes "reportAndReplace E pj st = (st', r)"
  shows "jobEffects pj st st' [CallReplace (Name pj) pj]" and "pend st' = pend st"
  using assms by (auto simp: reportAndReplace_def jobEffects_def)

lemma resolveURL_effects:
  assumes "resolveURL E jb pj st = (st', r)"
  shows "\<exists>ws. jobEffects pj st st' ws \<and> filter isBuild ws = []" and "pend st' = pend st"
proof -
  let ?pj1 = "pj\<lparr>Status := (Status pj)\<lparr>PodName := Job (Spec pj) @ ''-'' @ Itoa (BuildNumber jb),
                                           BuildID := Itoa (BuildNumber jb)\<rparr>\<rparr>"
  show "\<exists>ws. jobEffects pj st st' ws \<and> filter isBuild ws = []"
  proof (cases "cfgJobURLTemplate E ?pj1")
    case (Inl err)
    then have "st' = st" using assms by (simp add: resolveURL_def Let_def)
    then have "jobEffects pj st st' []" by (simp add: jobEffects_def)
    then show ?thesis by force
  next
    case (Inr url)
    let ?q = "?pj1\<lparr>Status := (Status ?pj1)\<lparr>URL := url\<rparr>\<rparr>"
    have "reportAndReplace E ?q st = (st', r)" using assms Inr by (simp add: resolveURL_def Let_def)
    from reportAndReplace_effects(1) [OF this]
    have "jobEffects pj st st' [CallReplace (Name ?q) ?q]" by (simp add: jobEffects_def)
    then show ?thesis by force
  qed
  show "pend st' = pend st"
    using assms
    by (auto simp: resolveURL_def Let_def reportAndReplace_def split: sum.splits)
qed

lemma startChildren_effects:
  "startChildren E pj njs cs = Inr (cs', r) \<Longrightarrow>
     \<exists>ws. cs' = cs @ ws \<and> replacedRecords ws = [] \<and> list_all (driverCallOk name) ws
          \<and> filter isBuild ws = []"
proof (induction njs arbitrary: cs)
  case Nil
  then show ?case by simp
next
  case (Cons nj njs)
  let ?child = "NewProwJob E nj (Labels pj)"
  show ?case
  proof (cases "RunAfterSuccessCanRun E pj ?child")
    case (Inl p)
    then show ?thesis using Cons.prems by simp
  next
    case (Inr b)
    show ?thesis
    proof (cases b)
      case False
      then show ?thesis using Cons Inr by simp
    next
      case True
      show ?thesis
      proof (cases "CreateProwJob E ?child")
        case (Inl err)
        then have "cs' = cs @ [CallCreate ?child]" using Cons.prems Inr True by simp
        then show ?thesis by simp
      next
        case (Inr created)
        then have "startChildren E pj njs (cs @ [CallCreate ?child]) = Inr (cs', r)"
          using Cons.prems \<open>RunAfterSuccessCanRun E pj ?child = Inr b\<close> True by simp
        from Cons.IH [OF this] obtain ws where
          "cs' = (cs @ [CallCreate ?child]) @ ws" "replacedRecords ws = []"
          "list_all (driverCallOk name) ws" "filter isBuild ws = []" by blast
        then have "cs' = cs @ (CallCreate ?child # ws) \<and> replacedRecords (CallCreate ?child # ws) = []
            \<and> list_all (driverCallOk name) (CallCreate ?child # ws)
            \<and> filter isBuild (CallCreate ?child # ws) = []" by simp
        then show ?thesis by blast
      qed
    qed
  qed
qed

lemma jobEffects_Name:
  "Name pj' = Name pj \<Longrightarrow> jobEffects pj' st st' ws = jobEffects pj st st' ws"
  by (simp add: jobEffects_def)

lemma jobEffects_pend: "jobEffects pj (st\<lparr>pend := m\<rparr>) st' ws = jobEffects pj st st' ws"
  by (simp add: jobEffects_def)

lemma jobEffects_trans:
  "jobEffects pj st st1 ws1 \<Longrightarrow> jobEffects pj st1 st2 ws2 \<Longrightarrow> length (replacedRecords (ws1 @ ws2)) \<le> 1 \<Longrightarrow>
     jobEffects pj st st2 (ws1 @ ws2)"
  by (auto simp: jobEffects_def)

lemma syncPendingJob_effects:
  assumes "syncPendingJob E jbs pj st = Inr (st', r)"
  shows "\<exists>ws. jobEffects pj st st' ws \<and> filter isBuild ws = []"
    and "pend st' = (if countedPending jbs pj then incrementNumPendingJobs (pend st) (Job (Spec pj))
                     else pend st)"
proof -
  show "\<exists>ws. jobEffects pj st st' ws \<and> filter isBuild ws = []"
  proof (cases "jbs (Name pj)")
    case None
    then have "reportAndReplace E (setError (Now E) ''Error finding Jenkins job.'' pj) st = (st', r)"
      using assms by (simp add: syncPendingJob_def)
    from reportAndReplace_effects(1) [OF this] show ?thesis
      by (force simp: jobEffects_def setError_def)
  next
    case (Some jb)
    have idle: "jobEffects pj st (countPending pj st) []"
      by (simp add: jobEffects_def countPending_def)
    consider (enq) "IsEnqueued jb"
      | (run) "\<not> IsEnqueued jb" "IsRunning jb"
      | (succ) "\<not> IsEnqueued jb" "\<not> IsRunning jb" "IsSuccess jb"
      | (fail) "\<not> IsEnqueued jb" "\<not> IsRunning jb" "\<not> IsSuccess jb" "IsFailure jb"
      | (abrt) "\<not> IsEnqueued jb" "\<not> IsRunning jb" "\<not> IsSuccess jb" "\<not> IsFailure jb" "IsAborted jb"
      | (none) "\<not> IsEnqueued jb" "\<not> IsRunning jb" "\<not> IsSuccess jb" "\<not> IsFailure jb" "\<not> IsAborted jb"
      by blast
    then show ?thesis
    proof cases
      case enq
      then have "st' = countPending pj st" using assms Some by (simp add: syncPendingJob_def)
      then have "jobEffects pj st st' [] \<and> filter isBuild [] = []" using idle by simp
      then show ?thesis by blast
    next
      case run
      show ?thesis
      proof (cases "Description (Status pj) = ''Jenkins job running.''")
        case True
        then have "st' = countPending pj st" using assms Some run by (simp add: syncPendingJob_def)
        then have "jobEffects pj st st' [] \<and> filter isBuild [] = []" using idle by simp
        then show ?thesis by blast
      next
        case False
        let ?pj = "pj\<lparr>Status := (Status pj)\<lparr>Description := ''Jenkins job running.''\<rparr>\<rparr>"
        have "resolveURL E jb ?pj (countPending pj st) = (st', r)"
          using assms Some run False by (simp add: syncPendingJob_def)
        from resolveURL_effects(1) [OF this] show ?thesis
          by (auto simp: jobEffects_def countPending_def)
      qed
    next
      case succ
      let ?pj1 = "setCompleted (Now E) SuccessState ''Jenkins job succeeded.'' pj"
      show ?thesis
      proof (cases "startChildren E ?pj1 (RunAfterSuccess (Spec ?pj1)) (writes st)")
        case (Inl p)
        then show ?thesis using assms Some succ by (simp add: syncPendingJob_def Let_def)
      next
        case (Inr cr)
        obtain cs r1 where cr: "cr = (cs, r1)" by (cases cr)
        from startChildren_effects [OF Inr [unfolded cr], of "Name pj"] obtain ws where
          ws: "cs = writes st @ ws" "replacedRecords ws = []" "list_all (driverCallOk (Name pj)) ws"
          "filter isBuild ws = []" by blast
        have mid: "jobEffects pj st (st\<lparr>writes := cs\<rparr>) ws"
          using ws by (simp add: jobEffects_def)
        show ?thesis
        proof (cases r1)
          case (Some err)
          then have "st' = st\<lparr>writes := cs\<rparr>"
            using assms \<open>jbs (Name pj) = Some jb\<close> succ Inr cr by (simp add: syncPendingJob_def Let_def)
          then show ?thesis using mid ws by force
        next
          case None
          then have "resolveURL E jb ?pj1 (st\<lparr>writes := cs\<rparr>) = (st', r)"
            using assms \<open>jbs (Name pj) = Some jb\<close> succ Inr cr by (simp add: syncPendingJob_def Let_def)
          from resolveURL_effects(1) [OF this] obtain ws2 where
            ws2: "jobEffects ?pj1 (st\<lparr>writes := cs\<rparr>) st' ws2" "filter isBuild ws2 = []" by blast
          have "jobEffects pj st st' (ws @ ws2)"
            using mid ws2(1) ws(2) by (auto simp: jobEffects_def setCompleted_def)
          then show ?thesis using ws(4) ws2(2) by force
        qed
      qed
    next
      case fail
      then have "resolveURL E jb (setCompleted (Now E) FailureState ''Jenkins job failed.'' pj) st = (st', r)"
        using assms Some by (simp add: syncPendingJob_def)
      from resolveURL_effects(1) [OF this] show ?thesis
        by (auto simp: jobEffects_def setCompleted_def)
    next
      case abrt
      then have "resolveURL E jb (setCompleted (Now E) AbortedState ''Jenkins job aborted.'' pj) st = (st', r)"
        using assms Some by (simp add: syncPendingJob_def)
      from resolveURL_effects(1) [OF this] show ?thesis
        by (auto simp: jobEffects_def setCompleted_def)
    next
      case none
      then have "resolveURL E jb pj st = (st', r)"
        using assms Some by (simp add: syncPendingJob_def)
      from resolveURL_effects(1) [OF this] show ?thesis by simp
    qed
  qed
  show "pend st' = (if countedPending jbs pj then incrementNumPendingJobs (pend st) (Job (Spec pj))
                     else pend st)"
    using assms
    by (auto simp: syncPendingJob_def countedPending_def countPending_def Let_def
          reportAndReplace_def resolveURL_def
          split: option.splits if_splits sum.splits prod.splits)
qed

subsection \<open>The worker pool and the shape of a tick\<close>

lemma syncNonPendingJob_effects:
  assumes "syncNonPendingJob E jbs pj st = Inr (st', r)"
  shows "\<exists>ws. jobEffects pj st st' ws
           \<and> running_total (pend st') = wrap64 (running_total (pend st) + int (length (filter isBuild ws)))
           \<and> (Complete pj \<longrightarrow> ws = [])"
proof (cases "Complete pj")
  case True
  then have "st' = st" using assms by (simp add: syncNonPendingJob_def)
  then have "jobEffects pj st st' []
           \<and> running_total (pend st') = wrap64 (running_total (pend st) + int (length (filter isBuild [])))
           \<and> (Complete pj \<longrightarrow> [] = ([] :: call list))"
    by (simp add: jobEffects_def wrap64_running_total)
  then show ?thesis by blast
next
  case False
  note nc = this
  show ?thesis
  proof (cases "jbs (Name pj)")
    case (Some jb)
    then have rr: "reportAndReplace E (setPending pj) st = (st', r)"
      using assms nc by (simp add: syncNonPendingJob_def)
    from reportAndReplace_effects [OF rr]
    have "jobEffects pj st st' [CallReplace (Name (setPending pj)) (setPending pj)]
           \<and> running_total (pend st') = wrap64 (running_total (pend st)
                + int (length (filter isBuild [CallReplace (Name (setPending pj)) (setPending pj)])))
           \<and> (Complete pj \<longrightarrow> [CallReplace (Name (setPending pj)) (setPending pj)] = [])"
      using nc by (simp add: jobEffects_def setPending_def wrap64_running_total)
    then show ?thesis by blast
  next
    case None
    obtain ok m where adm: "canExecuteConcurrently E (pend st) pj = (ok, m)"
      by (cases "canExecuteConcurrently E (pend st) pj")
    show ?thesis
    proof (cases ok)
      case False
      then have "m = pend st" using adm
        by (auto simp: canExecuteConcurrently_def split: if_splits)
      then have "st' = st" using assms nc None adm False by (simp add: syncNonPendingJob_def)
      then have "jobEffects pj st st' []
           \<and> running_total (pend st') = wrap64 (running_total (pend st) + int (length (filter isBuild [])))
           \<and> (Complete pj \<longrightarrow> [] = ([] :: call list))"
        by (simp add: jobEffects_def wrap64_running_total)
      then show ?thesis by blast
    next
      case True
      then have m: "m = incrementNumPendingJobs (pend st) (Job (Spec pj))" using adm
        by (auto simp: canExecuteConcurrently_def split: if_splits)
      let ?st1 = "st\<lparr>pend := m, writes := writes st @ [CallBuild pj]\<rparr>"
      let ?q = "case Build E pj of Some err \<Rightarrow> setError (Now E) ''Error starting Jenkins job.'' pj
                | None \<Rightarrow> setPending pj"
      have rr: "reportAndReplace E ?q ?st1 = (st', r)"
        using assms nc None adm True
        by (simp add: syncNonPendingJob_def Let_def split: option.splits)
      have nq: "Name ?q = Name pj" by (simp add: setError_def setPending_def split: option.splits)
      from reportAndReplace_effects [OF rr]
      have "jobEffects pj st st' [CallBuild pj, CallReplace (Name ?q) ?q]
           \<and> running_total (pend st') = wrap64 (running_total (pend st)
                + int (length (filter isBuild [CallBuild pj, CallReplace (Name ?q) ?q])))
           \<and> (Complete pj \<longrightarrow> [CallBuild pj, CallReplace (Name ?q) ?q] = [])"
        using nc nq m by (simp add: jobEffects_def running_total_increment)
      then show ?thesis by blast
    qed
  qed
qed

lemma syncNonPendingJob_Inr: "\<exists>st' r. syncNonPendingJob E jbs pj st = Inr (st', r)"
  by (auto simp: syncNonPendingJob_def Let_def split: option.splits prod.splits bool.splits)



lemma syncProwJobs_Inr:
  "syncProwJobs fn n jobs st = Inr st' \<Longrightarrow> (n = 0 \<and> st' = st) \<or> (0 < n \<and> run_jobs fn jobs st = Inr st')"
  by (auto simp: syncProwJobs_def split: if_splits)



lemma rearranged_filter_length:
  assumes "mset ys = mset xs"
  shows "length (filter P ys) = length (filter P xs)"
proof -
  have "mset (filter P ys) = mset (filter P xs)" using assms by simp
  then show ?thesis by (rule mset_eq_length)
qed

lemma Sync_Inr:
  assumes "Sync E c = Inr t" and "ListProwJobs E = Inr listed"
    and "ListBuilds E (getJenkinsJobs (filter (\<lambda>pj. Agent (Spec pj) = JenkinsAgent) listed)) = Inr jbs"
  shows "\<exists>ds derr st1 st2.
           terminateDupes E (filter (\<lambda>pj. Agent (Spec pj) = JenkinsAgent) listed) jbs = Inr (ds, derr)
           \<and> syncProwJobs (syncPendingJob E jbs) (cfgMaxGoroutines E)
                (Schedule E (filter (\<lambda>pj. State (Status pj) = PendingState) (slice ds)))
                \<lparr>pend = [], writes = calls ds, reports = [],
                 syncErrors = (case derr of None \<Rightarrow> [] | Some err \<Rightarrow> [err])\<rparr> = Inr st1
           \<and> syncProwJobs (syncNonPendingJob E jbs) (cfgMaxGoroutines E)
                (Schedule E (filter (\<lambda>pj. State (Status pj) \<noteq> PendingState) (slice ds))) st1 = Inr st2
           \<and> ctrl t = \<lparr>pendingJobs = pend st2, pjs = slice ds\<rparr>
           \<and> performed t = writes st2 \<and> reported t = reports st2
           \<and> returned t = (if syncErrors st2 = [] \<and> reportErrs E (reports st2) = [] then None
                            else Some (SyncErrors (syncErrors st2) (reportErrs E (reports st2))))"
  using assms
  by (auto simp: Sync_def Let_def PartitionPending_def split: sum.splits prod.splits)

subsection \<open>The calls and reports of a whole tick\<close>




lemma Sync_Inr_dupes:
  assumes "Sync E c = Inr t" and "ListProwJobs E = Inr listed"
    and "ListBuilds E (getJenkinsJobs (filter (\<lambda>pj. Agent (Spec pj) = JenkinsAgent) listed)) = Inr jbs"
    and "terminateDupes E (filter (\<lambda>pj. Agent (Spec pj) = JenkinsAgent) listed) jbs = Inr (ds, derr)"
  shows "\<exists>st1 st2.
           syncProwJobs (syncPendingJob E jbs) (cfgMaxGoroutines E)
                (Schedule E (filter (\<lambda>pj. State (Status pj) = PendingState) (slice ds)))
                \<lparr>pend = [], writes = calls ds, reports = [],
                 syncErrors = (case derr of None \<Rightarrow> [] | Some err \<Rightarrow> [err])\<rparr> = Inr st1
           \<and> syncProwJobs (syncNonPendingJob E jbs) (cfgMaxGoroutines E)
                (Schedule E (filter (\<lambda>pj. State (Status pj) \<noteq> PendingState) (slice ds))) st1 = Inr st2
           \<and> pendingJobs (ctrl t) = pend st2 \<and> pjs (ctrl t) = slice ds
           \<and> performed t = writes st2 \<and> reported t = reports st2
           \<and> returned t = (if syncErrors st2 = [] \<and> reportErrs E (reports st2) = [] then None
                            else Some (SyncErrors (syncErrors st2) (reportErrs E (reports st2))))"
proof -
  from Sync_Inr [OF assms(1-3)] obtain ds' derr' st1 st2 where
    h: "terminateDupes E (filter (\<lambda>pj. Agent (Spec pj) = JenkinsAgent) listed) jbs = Inr (ds', derr')"
    "syncProwJobs (syncPendingJob E jbs) (cfgMaxGoroutines E)
                (Schedule E (filter (\<lambda>pj. State (Status pj) = PendingState) (slice ds')))
                \<lparr>pend = [], writes = calls ds', reports = [],
                 syncErrors = (case derr' of None \<Rightarrow> [] | Some err \<Rightarrow> [err])\<rparr> = Inr st1"
    "syncProwJobs (syncNonPendingJob E jbs) (cfgMaxGoroutines E)
                (Schedule E (filter (\<lambda>pj. State (Status pj) \<noteq> PendingState) (slice ds'))) st1 = Inr st2"
    "ctrl t = \<lparr>pendingJobs = pend st2, pjs = slice ds'\<rparr>"
    "performed t = writes st2" "reported t = reports st2"
    "returned t = (if syncErrors st2 = [] \<and> reportErrs E (reports st2) = [] then None
                            else Some (SyncErrors (syncErrors st2) (reportErrs E (reports st2))))"
    by blast
  have e: "ds' = ds" "derr' = derr" using h(1) assms(4) by simp_all
  have c: "pendingJobs (ctrl t) = pend st2" "pjs (ctrl t) = slice ds" using h(4) e by simp_all
  show ?thesis using h(2,3,5,6,7) c unfolding e by blast
qed


subsection \<open>Reports\<close>


lemmas sync_eval =
  Sync_def syncProwJobs_def PartitionPending_def syncPendingJob_def syncNonPendingJob_def
  reportAndReplace_def resolveURL_def canExecuteConcurrently_def setPending_def setError_def
  setCompleted_def countPending_def incrementNumPendingJobs_def numPendingOf_def
  running_total_def wrap64_def reportErrs_def List.map_filter_def getJenkinsJobs_def



subsection \<open>The pendingJobs counter over a tick\<close>

lemma wrap64_nat_id: "int n < 2 ^ 63 \<Longrightarrow> wrap64 (int n) = int n"
  by (rule wrap64_id) simp_all

lemma syncPendingJob_total:
  assumes "syncPendingJob E jbs pj st = Inr (st', r)"
  shows "running_total (pend st')
           = wrap64 (running_total (pend st) + int (length (filter (countedPending jbs) [pj])))"
    and "filter isBuild (writes st') = filter isBuild (writes st)"
proof -
  show "running_total (pend st')
           = wrap64 (running_total (pend st) + int (length (filter (countedPending jbs) [pj])))"
    using syncPendingJob_effects(2) [OF assms]
    by (simp add: running_total_increment wrap64_running_total)
  from syncPendingJob_effects(1) [OF assms] obtain ws where
    "jobEffects pj st st' ws" "filter isBuild ws = []" by blast
  then show "filter isBuild (writes st') = filter isBuild (writes st)"
    by (simp add: jobEffects_def)
qed

lemma run_jobs_pending_total:
  "run_jobs (syncPendingJob E jbs) jobs st = Inr st' \<Longrightarrow>
     running_total (pend st')
       = wrap64 (running_total (pend st) + int (length (filter (countedPending jbs) jobs)))
     \<and> filter isBuild (writes st') = filter isBuild (writes st)"
proof (induction jobs arbitrary: st)
  case Nil
  then show ?case by (simp add: wrap64_running_total)
next
  case (Cons pj jobs)
  show ?case
  proof (cases "syncPendingJob E jbs pj st")
    case (Inl p)
    then show ?thesis using Cons.prems by simp
  next
    case (Inr sr)
    obtain s1 r where sr: "sr = (s1, r)" by (cases sr)
    note one = syncPendingJob_total [OF Inr [unfolded sr]]
    let ?s1 = "case r of None \<Rightarrow> s1 | Some err \<Rightarrow> s1\<lparr>syncErrors := syncErrors s1 @ [err]\<rparr>"
    have rest: "run_jobs (syncPendingJob E jbs) jobs ?s1 = Inr st'"
      using Cons.prems Inr sr by (simp split: option.splits)
    have same: "pend ?s1 = pend s1" "writes ?s1 = writes s1" by (simp_all split: option.splits)
    from Cons.IH [OF rest] have
      ih: "running_total (pend st')
             = wrap64 (running_total (pend s1) + int (length (filter (countedPending jbs) jobs)))"
      "filter isBuild (writes st') = filter isBuild (writes s1)"
      using same by simp_all
    have "running_total (pend st')
            = wrap64 (wrap64 (running_total (pend st) + int (length (filter (countedPending jbs) [pj])))
                + int (length (filter (countedPending jbs) jobs)))"
      using ih(1) one(1) by simp
    also have "\<dots> = wrap64 (running_total (pend st) + int (length (filter (countedPending jbs) [pj]))
                + int (length (filter (countedPending jbs) jobs)))"
      by (rule wrap64_add_left)
    also have "\<dots> = wrap64 (running_total (pend st)
                + int (length (filter (countedPending jbs) (pj # jobs))))"
      by (simp add: add.assoc)
    finally show ?thesis using ih(2) one(2) by simp
  qed
qed

lemma syncNonPendingJob_total:
  assumes "syncNonPendingJob E jbs pj st = Inr (st', r)"
  shows "\<exists>k. k \<le> 1
           \<and> length (filter isBuild (writes st')) = length (filter isBuild (writes st)) + k
           \<and> running_total (pend st') = wrap64 (running_total (pend st) + int k)"
proof -
  from syncNonPendingJob_effects [OF assms] obtain ws where
    e: "jobEffects pj st st' ws"
    and tot: "running_total (pend st') = wrap64 (running_total (pend st) + int (length (filter isBuild ws)))"
    by blast
  have w: "writes st' = writes st @ ws" using e by (simp add: jobEffects_def)
  have "length (filter isBuild (writes st')) \<le> length (filter isBuild (writes st)) + 1"
    using assms
    by (auto simp: syncNonPendingJob_def reportAndReplace_def Let_def
          split: if_splits option.splits prod.splits bool.splits)
  then have "length (filter isBuild ws) \<le> 1" using w by simp
  moreover have "length (filter isBuild (writes st'))
      = length (filter isBuild (writes st)) + length (filter isBuild ws)" using w by simp
  ultimately show ?thesis using tot by blast
qed

lemma run_jobs_nonpending_total:
  "run_jobs (syncNonPendingJob E jbs) jobs st = Inr st' \<Longrightarrow>
     \<exists>k. k \<le> length jobs
        \<and> length (filter isBuild (writes st')) = length (filter isBuild (writes st)) + k
        \<and> running_total (pend st') = wrap64 (running_total (pend st) + int k)"
proof (induction jobs arbitrary: st)
  case Nil
  then have "0 \<le> length ([] :: ProwJob list)
        \<and> length (filter isBuild (writes st')) = length (filter isBuild (writes st)) + 0
        \<and> running_total (pend st') = wrap64 (running_total (pend st) + int 0)"
    by (simp add: wrap64_running_total)
  then show ?case by blast
next
  case (Cons pj jobs)
  show ?case
  proof (cases "syncNonPendingJob E jbs pj st")
    case (Inl p)
    then show ?thesis using Cons.prems by simp
  next
    case (Inr sr)
    obtain s1 r where sr: "sr = (s1, r)" by (cases sr)
    from syncNonPendingJob_total [OF Inr [unfolded sr]] obtain k1 where
      k1: "k1 \<le> 1"
      "length (filter isBuild (writes s1)) = length (filter isBuild (writes st)) + k1"
      "running_total (pend s1) = wrap64 (running_total (pend st) + int k1)"
      by blast
    let ?s1 = "case r of None \<Rightarrow> s1 | Some err \<Rightarrow> s1\<lparr>syncErrors := syncErrors s1 @ [err]\<rparr>"
    have rest: "run_jobs (syncNonPendingJob E jbs) jobs ?s1 = Inr st'"
      using Cons.prems Inr sr by (simp split: option.splits)
    have same: "pend ?s1 = pend s1" "writes ?s1 = writes s1" by (simp_all split: option.splits)
    from Cons.IH [OF rest] obtain k2 where
      k2: "k2 \<le> length jobs"
      "length (filter isBuild (writes st')) = length (filter isBuild (writes s1)) + k2"
      "running_total (pend st') = wrap64 (running_total (pend s1) + int k2)"
      using same by auto
    have "running_total (pend st') = wrap64 (wrap64 (running_total (pend st) + int k1) + int k2)"
      using k2(3) k1(3) by simp
    also have "\<dots> = wrap64 (running_total (pend st) + int k1 + int k2)"
      by (rule wrap64_add_left)
    finally have "running_total (pend st') = wrap64 (running_total (pend st) + int (k1 + k2))"
      by (simp add: add.assoc)
    moreover have "k1 + k2 \<le> length (pj # jobs)" using k1(1) k2(1) by simp
    moreover have "length (filter isBuild (writes st'))
        = length (filter isBuild (writes st)) + (k1 + k2)" using k1(2) k2(2) by simp
    ultimately show ?thesis by blast
  qed
qed

subsection \<open>What pendingJobs counts\<close>

lemma dedupe_no_builds:
  assumes "terminateDupes E js jbs = Inr (ds, derr)"
  shows "filter isBuild (calls ds) = []"
proof -
  have "\<not> isBuild c" if "c \<in> set (calls ds)" for c
  proof -
    have "dedupeCallOk E jbs js c" using terminateDupes_pass(2) [OF assms] that by (rule bspec)
    then show ?thesis by (cases c) simp_all
  qed
  then show ?thesis by (simp add: filter_empty_conv)
qed

text \<open>
  C6, as the code has it. At the end of a tick that ran its workers, the sum of the
  \<open>pendingJobs\<close> counts is the number of records dispatched to the pending driver whose
  build is enqueued or running, plus the number of records the non-pending driver admitted
  and submitted to Jenkins in this tick (the number of Build calls); in 64-bit arithmetic,
  and exactly when fewer than \<open>2 ^ 63\<close> records were listed. This is not the number of
  records that are pending when the tick ends: a record advanced to pending over an
  existing build is not counted, and a record admitted but not started is. The equation
  holds for every order in which the pool runs the drivers.
\<close>

theorem pendingJobs_counts:
  assumes sync: "Sync E c = Inr t" and lst: "ListProwJobs E = Inr listed"
    and blds: "ListBuilds E (getJenkinsJobs (filter (\<lambda>pj. Agent (Spec pj) = JenkinsAgent) listed)) = Inr jbs"
    and dd: "terminateDupes E (filter (\<lambda>pj. Agent (Spec pj) = JenkinsAgent) listed) jbs = Inr (ds, derr)"
    and workers: "0 < cfgMaxGoroutines E"
    and sched: "\<forall>xs. mset (Schedule E xs) = mset xs"
  shows "running_total (pendingJobs (ctrl t))
           = wrap64 (int (length (filter (countedPending jbs)
                                   (filter (\<lambda>pj. State (Status pj) = PendingState) (slice ds))))
                     + int (length (filter isBuild (performed t))))
         \<and> (int (length listed) < 2 ^ 63 \<longrightarrow>
              running_total (pendingJobs (ctrl t))
                = int (length (filter (countedPending jbs)
                                (filter (\<lambda>pj. State (Status pj) = PendingState) (slice ds))))
                  + int (length (filter isBuild (performed t))))"
proof -
  let ?pendings = "filter (\<lambda>pj. State (Status pj) = PendingState) (slice ds)"
  let ?others = "filter (\<lambda>pj. State (Status pj) \<noteq> PendingState) (slice ds)"
  let ?pend = "Schedule E ?pendings"
  let ?non = "Schedule E ?others"
  let ?st0 = "\<lparr>pend = [], writes = calls ds, reports = [],
            syncErrors = (case derr of None \<Rightarrow> [] | Some err \<Rightarrow> [err])\<rparr>"
  let ?c = "length (filter (countedPending jbs) ?pendings)"
  have mp: "mset ?pend = mset ?pendings" and mn: "mset ?non = mset ?others"
    using sched by simp_all
  have cp: "length (filter (countedPending jbs) ?pend) = ?c"
    by (rule rearranged_filter_length [OF mp])
  have ln: "length ?non = length ?others" using mn by (rule mset_eq_length)
  from Sync_Inr_dupes [OF sync lst blds dd] obtain st1 st2 where
    p1: "syncProwJobs (syncPendingJob E jbs) (cfgMaxGoroutines E) ?pend ?st0 = Inr st1"
    and p2: "syncProwJobs (syncNonPendingJob E jbs) (cfgMaxGoroutines E) ?non st1 = Inr st2"
    and t: "pendingJobs (ctrl t) = pend st2" "performed t = writes st2"
    by (elim exE conjE)
  have r1: "run_jobs (syncPendingJob E jbs) ?pend ?st0 = Inr st1"
    using syncProwJobs_Inr [OF p1] workers by simp
  have r2: "run_jobs (syncNonPendingJob E jbs) ?non st1 = Inr st2"
    using syncProwJobs_Inr [OF p2] workers by simp
  have zero: "running_total [] = 0" by (simp add: running_total_def)
  from run_jobs_pending_total [OF r1]
  have a1: "running_total (pend st1) = wrap64 (int ?c)"
    and b1: "filter isBuild (writes st1) = []"
    using zero dedupe_no_builds [OF dd] cp by simp_all
  from run_jobs_nonpending_total [OF r2] obtain k where
    k: "k \<le> length ?non"
    "length (filter isBuild (writes st2)) = length (filter isBuild (writes st1)) + k"
    "running_total (pend st2) = wrap64 (running_total (pend st1) + int k)"
    by blast
  have builds: "length (filter isBuild (performed t)) = k" using k(2) b1 t(2) by simp
  have "running_total (pend st2) = wrap64 (wrap64 (int ?c) + int k)" using k(3) a1 by simp
  also have "\<dots> = wrap64 (int ?c + int k)" by (rule wrap64_add_left)
  finally have total: "running_total (pendingJobs (ctrl t))
      = wrap64 (int ?c + int (length (filter isBuild (performed t))))"
    using t(1) builds by simp
  have exact: "running_total (pendingJobs (ctrl t))
      = int ?c + int (length (filter isBuild (performed t)))"
    if small: "int (length listed) < 2 ^ 63"
  proof -
    have "?c \<le> length ?pendings" by (rule length_filter_le)
    moreover have "length ?pendings + length ?others = length (slice ds)"
      by (rule sum_length_filter_compl)
    moreover have "length (slice ds) = length (filter (\<lambda>pj. Agent (Spec pj) = JenkinsAgent) listed)"
      by (rule terminateDupes_pass(1) [OF dd])
    moreover have "length (filter (\<lambda>pj. Agent (Spec pj) = JenkinsAgent) listed) \<le> length listed"
      by (rule length_filter_le)
    ultimately have "?c + k \<le> length listed" using k(1) ln by linarith
    then have "int (?c + k) < 2 ^ 63" using small by linarith
    then have "wrap64 (int (?c + k)) = int (?c + k)" by (rule wrap64_nat_id)
    then show ?thesis using total builds by simp
  qed
  show ?thesis using total exact by blast
qed

text \<open>
  C6, witness: \<open>p\<close> is pending with an enqueued build, \<open>q\<close> is triggered with none; the tick
  counts \<open>p\<close>, admits and submits \<open>q\<close>, and the counter ends at 2.
\<close>

theorem pendingJobs_counts_witness:
  "(case Sync (exEnv [exPJ ''p'' (exSpec PeriodicJob ''ci-x'' 0 [] [])
                        (exStatus PendingState 1 None ''Jenkins job enqueued.''),
                      exPJ ''q'' (exSpec PeriodicJob ''ci-x'' 0 [] []) (exStatus TriggeredState 2 None [])]
                 [(''p'', exBuild 3 True False False)] False) exController of
      Inl p \<Rightarrow> False
    | Inr t \<Rightarrow> running_total (pendingJobs (ctrl t)) = 2
        \<and> length (filter isBuild (performed t)) = 1)"
proof -
  let ?p = "exPJ ''p'' (exSpec PeriodicJob ''ci-x'' 0 [] [])
              (exStatus PendingState 1 None ''Jenkins job enqueued.'')"
  let ?q = "exPJ ''q'' (exSpec PeriodicJob ''ci-x'' 0 [] []) (exStatus TriggeredState 2 None [])"
  let ?E = "exEnv [?p, ?q] [(''p'', exBuild 3 True False False)] False"
  let ?js = "filter (\<lambda>pj. Agent (Spec pj) = JenkinsAgent) [?p, ?q]"
  let ?jbs = "map_of [(''p'', exBuild 3 True False False)]"
  have "\<exists>t. Sync ?E exController = Inr t \<and> length (filter isBuild (performed t)) = 1"
    by (simp add: sync_eval dedupe_eval)
  then obtain t where sync: "Sync ?E exController = Inr t"
    and b: "length (filter isBuild (performed t)) = 1"
    by blast
  have lst: "ListProwJobs ?E = Inr [?p, ?q]" by (simp add: exEnv_def)
  have blds: "ListBuilds ?E (getJenkinsJobs ?js) = Inr ?jbs" by (simp add: exEnv_def)
  have dd: "terminateDupes ?E ?js ?jbs = Inr (\<lparr>dupes = Map.empty, slice = [?p, ?q], calls = []\<rparr>, None)"
    by (simp add: dedupe_eval)
  have w: "0 < cfgMaxGoroutines ?E" by (simp add: exEnv_def)
  have sched: "\<forall>xs. mset (Schedule ?E xs) = mset xs" by (simp add: exEnv_def)
  have s: "int (length [?p, ?q]) < 2 ^ 63" by simp
  from pendingJobs_counts [OF sync lst blds dd w sched] s
  have "running_total (pendingJobs (ctrl t))
          = int (length (filter (countedPending ?jbs)
                  (filter (\<lambda>pj. State (Status pj) = PendingState)
                     (slice \<lparr>dupes = Map.empty, slice = [?p, ?q], calls = []\<rparr>))))
            + int (length (filter isBuild (performed t)))"
    by blast
  then have "running_total (pendingJobs (ctrl t)) = 2"
    using b by (simp add: ex_defs countedPending_def)
  then show ?thesis using sync b by simp
qed

text \<open>
  C6, counterexample: a triggered record whose build already runs is persisted as pending,
  so one record is pending in the store when the tick ends, and the counter is empty.
\<close>

theorem pendingJobs_counts_counterexample:
  "(case Sync (exEnv [exPJ ''a'' (exSpec PeriodicJob ''ci-x'' 0 [] []) (exStatus TriggeredState 1 None [])]
                 [(''a'', exBuild 3 False True False)] False) exController of
      Inl p \<Rightarrow> False
    | Inr t \<Rightarrow>
        running_total (pendingJobs (ctrl t)) = 0
        \<and> performed t =
            [CallReplace ''a''
               (setPending (exPJ ''a'' (exSpec PeriodicJob ''ci-x'' 0 [] [])
                               (exStatus TriggeredState 1 None [])))]
        \<and> length (filter (\<lambda>pj. State (Status pj) = PendingState)
             (storeAfter (exEnv [exPJ ''a'' (exSpec PeriodicJob ''ci-x'' 0 [] [])
                                    (exStatus TriggeredState 1 None [])]
                            [(''a'', exBuild 3 False True False)] False)
                (performed t)
                [exPJ ''a'' (exSpec PeriodicJob ''ci-x'' 0 [] []) (exStatus TriggeredState 1 None [])]))
          = 1)"
  by (simp add: sync_eval dedupe_eval)

subsection \<open>Complete records\<close>






subsection \<open>Terminal states are sticky\<close>

lemma storeAfter_length: "length store \<le> length (storeAfter E cs store)"
proof (induction cs arbitrary: store)
  case Nil
  then show ?case by simp
next
  case (Cons c cs)
  show ?case
  proof (cases c)
    case (CallReplace n q)
    show ?thesis
    proof (cases "ReplaceProwJob E n q")
      case (Inl err)
      then show ?thesis using Cons.IH [of store] CallReplace by simp
    next
      case (Inr npj)
      then show ?thesis
        using Cons.IH [of "map (\<lambda>r. if Name r = n then npj else r) store"] CallReplace by simp
    qed
  next
    case (CallCreate q)
    show ?thesis
    proof (cases "CreateProwJob E q")
      case (Inl err)
      then show ?thesis using Cons.IH [of store] CallCreate by simp
    next
      case (Inr created)
      then show ?thesis using Cons.IH [of "store @ [created]"] CallCreate by simp
    qed
  next
    case (CallBuild q)
    then show ?thesis using Cons.IH [of store] by simp
  next
    case (CallAbort j b)
    then show ?thesis using Cons.IH [of store] by simp
  qed
qed




subsection \<open>A tick with nothing to do\<close>









subsection \<open>Quiescence\<close>




end
